theory Spec2Isabelle
  imports Main "HOL-Library.Char_ord" "HOL-Library.List_Lexorder" "HOL-Library.Log_Nat"
    "HOL-Library.Multiset"
begin

section \<open>Data model (operator/utils.ts)\<close>

text \<open>
  The fields of \<open>LoanTask\<close> that \<open>operator/matching.ts\<close> reads. A \<open>bigint\<close> is an
  \<open>int\<close>; the task id, a \<open>number\<close> holding the task index, is a \<open>nat\<close>; an
  address is a \<open>string\<close>.
\<close>

record LoanTask =
  isLender :: bool
  principalAmount :: int
  interestRateBips :: int
  maturityTimestamp :: int
  sender :: string
  taskId :: nat

datatype LoanFeasibility =
  NONE | FULL_MATCH | PARTIAL_LENDER | PARTIAL_BORROWER | PARTIAL_BOTH
  | NO_RATE_OVERLAP | MATURITY_MISMATCH

text \<open>
  \<open>LoanMatching\<close>: one group of a partition after evaluation. Its fields
  \<open>totalLenderAmount\<close>, \<open>totalBorrowerAmount\<close> and \<open>maturityTimestamp\<close> carry the prefix
  \<open>group\<close> here, since the names are already fields of the other two records.
\<close>

record LoanMatching =
  loanTasks :: "LoanTask list"
  feasibility :: LoanFeasibility
  groupTotalLenderAmount :: int
  groupTotalBorrowerAmount :: int
  matchedAmount :: int
  effectiveRate :: int
  groupMaturityTimestamp :: int

text \<open>
  \<open>LoanMatchingResult\<close>. A \<open>bigDecimal\<close> field is produced with four fractional
  digits only, and is held as the integer number of ten-thousandths.
\<close>

record LoanMatchingResult =
  matchings :: "LoanMatching list"
  averageLenderRate :: int
  averageBorrowerRate :: int
  totalLenderAmount :: int
  totalBorrowerAmount :: int
  totalMatchedAmount :: int
  unmatchedLenderAmount :: int
  unmatchedBorrowerAmount :: int
  feasible :: bool
  feasibilityType :: LoanFeasibility
  rateSpread :: int
  matchingEfficiency :: int

record LoanTransfer =
  lender :: string
  borrower :: string
  amount :: int
  rate :: int
  transferMaturityTimestamp :: int

section \<open>Arithmetic helpers\<close>

text \<open>
  Modelled from the spec: \<open>Mathb.min\<close> and \<open>Mathb.max\<close> of \<open>operator/math.ts\<close>, which is
  not among the sources; the spec uses them as the minimum and the maximum of two integers.
\<close>

definition Mathb_min :: "int \<Rightarrow> int \<Rightarrow> int" where
  "Mathb_min a b = (if a < b then a else b)"

definition Mathb_max :: "int \<Rightarrow> int \<Rightarrow> int" where
  "Mathb_max a b = (if a > b then a else b)"

text \<open>Division of two \<open>bigint\<close>s truncates toward zero; no call site divides by zero.\<close>

definition bigint_div :: "int \<Rightarrow> int \<Rightarrow> int" where
  "bigint_div a b = sgn a * sgn b * (\<bar>a\<bar> div \<bar>b\<bar>)"

definition MAX_SAFE_INTEGER :: int where
  "MAX_SAFE_INTEGER = 2 ^ 53 - 1"

section \<open>Best-result selector\<close>

datatype SelectorError = EmptyResultSet

text \<open>
  The loop body of \<open>computeBestLoanResult\<close>: \<open>best\<close> is \<open>bestResult\<close>, \<open>None\<close> for
  \<open>null\<close>.
\<close>

definition selectStep ::
  "LoanMatchingResult option \<Rightarrow> LoanMatchingResult \<Rightarrow> LoanMatchingResult option" where
  "selectStep best r =
     (if \<not> feasible r then best
      else case best of
        None \<Rightarrow> Some r
      | Some b \<Rightarrow>
          if totalMatchedAmount r > totalMatchedAmount b then Some r
          else if totalMatchedAmount r = totalMatchedAmount b then
            (if matchingEfficiency r > matchingEfficiency b then Some r
             else if matchingEfficiency r = matchingEfficiency b then
               (if averageBorrowerRate r < averageBorrowerRate b then Some r else Some b)
             else Some b)
          else Some b)"

text \<open>
  \<open>computeBestLoanResult\<close> has no \<open>throw\<close>: it ends with
  \<open>return bestResult || possibleResults[0]\<close>, and reading index 0 of an empty array gives
  \<open>undefined\<close>. The outcome is \<open>Inl\<close> for a raised error and \<open>Inr\<close> for a normal return,
  whose value is \<open>None\<close> for \<open>undefined\<close>.
\<close>

definition computeBestLoanResult ::
  "LoanMatchingResult list \<Rightarrow> SelectorError + LoanMatchingResult option" where
  "computeBestLoanResult possibleResults =
     (case foldl selectStep None possibleResults of
        Some b \<Rightarrow> Inr (Some b)
      | None \<Rightarrow> (case possibleResults of [] \<Rightarrow> Inr None | r # _ \<Rightarrow> Inr (Some r)))"

section \<open>Feasibility filter\<close>

text \<open>
  \<open>Number(x)\<close> of a \<open>bigint\<close>: the nearest double, ties to even. Every integer of
  magnitude at most \<open>2 ^ 53\<close> is a double; above, the 53 leading bits are kept and
  rounded. All finite doubles are below \<open>2 ^ 1024\<close>, which stands for \<open>Infinity\<close>.
\<close>

definition roundToDouble :: "nat \<Rightarrow> nat" where
  "roundToDouble n =
     (if n \<le> 2 ^ 53 then n
      else let s = floorlog 2 n - 53;
               q = n div 2 ^ s;
               r = n mod 2 ^ s;
               h = 2 ^ (s - 1);
               q' = (if h < r \<or> (r = h \<and> odd q) then q + 1 else q)
           in min (q' * 2 ^ s) (2 ^ 1024))"

definition Number :: "int \<Rightarrow> int" where
  "Number x = (if x < 0 then - int (roundToDouble (nat (- x))) else int (roundToDouble (nat x)))"

text \<open>\<open>Math.min(...xs)\<close> and \<open>Math.max(...xs)\<close>; on no argument they are \<open>Infinity\<close> and \<open>-Infinity\<close>.\<close>

fun Math_min :: "int list \<Rightarrow> int" where
  "Math_min [] = 2 ^ 1024"
| "Math_min (x # xs) = foldl min x xs"

fun Math_max :: "int list \<Rightarrow> int" where
  "Math_max [] = - (2 ^ 1024)"
| "Math_max (x # xs) = foldl max x xs"

text \<open>\<open>new Set(xs)\<close>, in insertion order: the first occurrence of each element is kept.\<close>

definition newSet :: "'a list \<Rightarrow> 'a list" where
  "newSet xs = foldl (\<lambda>acc x. if x \<in> set acc then acc else acc @ [x]) [] xs"

text \<open>The checks that the loop body of \<open>isLoanCombinationPossible\<close> makes on a group
  whose length is not 1.\<close>

definition groupPossible :: "LoanTask list \<Rightarrow> bool" where
  "groupPossible matching =
     (let lenders = filter isLender matching;
          borrowers = filter (\<lambda>task. \<not> isLender task) matching
      in if length lenders = 0 \<or> length borrowers = 0 then False
         else
           let minLenderRate = Math_min (map (\<lambda>l. Number (interestRateBips l)) lenders);
               maxBorrowerRate = Math_max (map (\<lambda>b. Number (interestRateBips b)) borrowers)
           in if minLenderRate > maxBorrowerRate then False
              else
                let lenderMaturities = newSet (map maturityTimestamp lenders);
                    borrowerMaturities = newSet (map maturityTimestamp borrowers);
                    hasCommonMaturity =
                      list_ex (\<lambda>m. m \<in> set borrowerMaturities) lenderMaturities
                in hasCommonMaturity)"

definition isLoanCombinationPossible :: "LoanTask list list \<Rightarrow> bool" where
  "isLoanCombinationPossible combination =
     list_all (\<lambda>matching. length matching = 1 \<or> groupPossible matching) combination"

section \<open>Result evaluator\<close>

text \<open>The common maturities, sorted ascending.\<close>

definition findCommonMaturities :: "LoanTask list \<Rightarrow> LoanTask list \<Rightarrow> int list" where
  "findCommonMaturities lenders borrowers =
     (let lenderMaturities = newSet (map maturityTimestamp lenders);
          borrowerMaturities = newSet (map maturityTimestamp borrowers)
      in sort (filter (\<lambda>maturity. maturity \<in> set borrowerMaturities) lenderMaturities))"

definition determineFeasibilityType :: "LoanMatching list \<Rightarrow> LoanFeasibility" where
  "determineFeasibilityType ms =
     (let hasMatches = list_ex (\<lambda>m. feasibility m = FULL_MATCH \<or>
                                     feasibility m = PARTIAL_LENDER \<or>
                                     feasibility m = PARTIAL_BORROWER) ms
      in if \<not> hasMatches then NONE
         else
           let allFull = list_all (\<lambda>m. feasibility m = FULL_MATCH \<or> feasibility m = NONE) ms
           in if allFull then FULL_MATCH
              else
                let hasPartialLender = list_ex (\<lambda>m. feasibility m = PARTIAL_LENDER) ms;
                    hasPartialBorrower = list_ex (\<lambda>m. feasibility m = PARTIAL_BORROWER) ms
                in if hasPartialLender \<and> hasPartialBorrower then PARTIAL_BOTH
                   else if hasPartialLender then PARTIAL_LENDER
                   else PARTIAL_BORROWER)"

text \<open>The running totals of \<open>computeLoanMatchingResult\<close>.\<close>

record EvalTotals =
  accMatchings :: "LoanMatching list"
  accTotalLenderAmount :: int
  accTotalBorrowerAmount :: int
  accTotalMatchedAmount :: int
  accWeightedLenderRate :: int
  accWeightedBorrowerRate :: int

definition minLenderRateOf :: "LoanTask list \<Rightarrow> int" where
  "minLenderRateOf lenders =
     foldl (\<lambda>m l. Mathb_min m (interestRateBips l)) MAX_SAFE_INTEGER lenders"

definition maxBorrowerRateOf :: "LoanTask list \<Rightarrow> int" where
  "maxBorrowerRateOf borrowers =
     foldl (\<lambda>m b. Mathb_max m (interestRateBips b)) 0 borrowers"

text \<open>One pass of the loop over the groups of the partition.\<close>

definition processGroup :: "EvalTotals \<Rightarrow> LoanTask list \<Rightarrow> EvalTotals" where
  "processGroup acc matching =
     (let lenders = filter isLender matching;
          borrowers = filter (\<lambda>task. \<not> isLender task) matching
      in if length matching = 1 then
           let task = hd matching
           in acc\<lparr>accTotalLenderAmount :=
                    (if isLender task then accTotalLenderAmount acc + principalAmount task
                     else accTotalLenderAmount acc),
                  accTotalBorrowerAmount :=
                    (if isLender task then accTotalBorrowerAmount acc
                     else accTotalBorrowerAmount acc + principalAmount task),
                  accMatchings := accMatchings acc @
                    [\<lparr>loanTasks = [task], feasibility = NONE,
                      groupTotalLenderAmount = (if isLender task then principalAmount task else 0),
                      groupTotalBorrowerAmount = (if \<not> isLender task then principalAmount task else 0),
                      matchedAmount = 0, effectiveRate = 0,
                      groupMaturityTimestamp = maturityTimestamp task\<rparr>]\<rparr>
         else
           let availableLenderAmount = sum_list (map principalAmount lenders);
               availableBorrowerAmount = sum_list (map principalAmount borrowers);
               minLenderRate = minLenderRateOf lenders;
               maxBorrowerRate = maxBorrowerRateOf borrowers;
               matchingResult =
                 \<lparr>loanTasks = matching, feasibility = NONE,
                  groupTotalLenderAmount = availableLenderAmount,
                  groupTotalBorrowerAmount = availableBorrowerAmount,
                  matchedAmount = 0, effectiveRate = 0, groupMaturityTimestamp = 0\<rparr>
           in if minLenderRate > maxBorrowerRate then
                acc\<lparr>accMatchings := accMatchings acc @
                      [matchingResult\<lparr>feasibility := NO_RATE_OVERLAP\<rparr>]\<rparr>
              else
                let commonMaturities = findCommonMaturities lenders borrowers
                in if length commonMaturities = 0 then
                     acc\<lparr>accMatchings := accMatchings acc @
                           [matchingResult\<lparr>feasibility := MATURITY_MISMATCH\<rparr>]\<rparr>
                   else
                     let matchedAmountLocal =
                           Mathb_min availableLenderAmount availableBorrowerAmount;
                         effRate = bigint_div (minLenderRate + maxBorrowerRate) 2;
                         feas = (if availableLenderAmount = availableBorrowerAmount
                                 then FULL_MATCH
                                 else if availableLenderAmount > availableBorrowerAmount
                                 then PARTIAL_LENDER
                                 else PARTIAL_BORROWER)
                     in acc\<lparr>accTotalMatchedAmount :=
                              accTotalMatchedAmount acc + matchedAmountLocal,
                            accWeightedLenderRate :=
                              accWeightedLenderRate acc + effRate * matchedAmountLocal,
                            accWeightedBorrowerRate :=
                              accWeightedBorrowerRate acc + effRate * matchedAmountLocal,
                            accMatchings := accMatchings acc @
                              [matchingResult\<lparr>groupMaturityTimestamp := hd commonMaturities,
                                 matchedAmount := matchedAmountLocal,
                                 effectiveRate := effRate,
                                 feasibility := feas\<rparr>],
                            accTotalLenderAmount :=
                              accTotalLenderAmount acc + availableLenderAmount,
                            accTotalBorrowerAmount :=
                              accTotalBorrowerAmount acc + availableBorrowerAmount\<rparr>)"

definition initialTotals :: EvalTotals where
  "initialTotals =
     \<lparr>accMatchings = [], accTotalLenderAmount = 0, accTotalBorrowerAmount = 0,
      accTotalMatchedAmount = 0, accWeightedLenderRate = 0, accWeightedBorrowerRate = 0\<rparr>"

text \<open>
  \<open>x.divide(y, 4, RoundingModes.FLOOR)\<close> of js-big-decimal, as the library documents
  it: the quotient to four fractional digits, rounded down; the result in ten-thousandths.
  It is only called with \<open>y > 0\<close>. The library itself is not among the sources; the
  theorems below use the value only at a zero numerator and at small non-negative operands.
\<close>

definition divideFloor4 :: "int \<Rightarrow> int \<Rightarrow> int" where
  "divideFloor4 x y = (x * 10000) div y"

definition computeLoanMatchingResult :: "LoanTask list list \<Rightarrow> LoanMatchingResult" where
  "computeLoanMatchingResult combination =
     (let acc = foldl processGroup initialTotals combination;
          isResultFeasible = accTotalMatchedAmount acc > 0;
          avgRate = (if accTotalMatchedAmount acc > 0
                     then divideFloor4 (accWeightedLenderRate acc) (accTotalMatchedAmount acc)
                     else 0);
          totalAmount = accTotalLenderAmount acc + accTotalBorrowerAmount acc
      in \<lparr>matchings = accMatchings acc,
          averageLenderRate = avgRate,
          averageBorrowerRate = avgRate,
          totalLenderAmount = accTotalLenderAmount acc,
          totalBorrowerAmount = accTotalBorrowerAmount acc,
          totalMatchedAmount = accTotalMatchedAmount acc,
          unmatchedLenderAmount = accTotalLenderAmount acc - accTotalMatchedAmount acc,
          unmatchedBorrowerAmount = accTotalBorrowerAmount acc - accTotalMatchedAmount acc,
          feasible = isResultFeasible,
          feasibilityType = determineFeasibilityType (accMatchings acc),
          rateSpread = 0,
          matchingEfficiency =
            (if totalAmount > 0
             then divideFloor4 (accTotalMatchedAmount acc * 2) totalAmount
             else 0)\<rparr>)"

section \<open>Settlement transfer calculator\<close>

definition lenderShareOf :: "LoanMatching \<Rightarrow> LoanTask \<Rightarrow> int" where
  "lenderShareOf matching l =
     (if groupTotalLenderAmount matching > 0
      then bigint_div (principalAmount l * matchedAmount matching) (groupTotalLenderAmount matching)
      else 0)"

definition borrowerShareOf :: "LoanMatching \<Rightarrow> LoanTask \<Rightarrow> int" where
  "borrowerShareOf matching b =
     (if groupTotalBorrowerAmount matching > 0
      then bigint_div (principalAmount b * matchedAmount matching) (groupTotalBorrowerAmount matching)
      else 0)"

text \<open>The inner loop over the lenders for one borrower, from \<open>borrowerRemaining\<close> on.\<close>

fun lenderLoop :: "LoanMatching \<Rightarrow> LoanTask \<Rightarrow> int \<Rightarrow> LoanTask list \<Rightarrow> LoanTransfer list" where
  "lenderLoop matching b borrowerRemaining [] = []"
| "lenderLoop matching b borrowerRemaining (l # ls) =
     (if borrowerRemaining = 0 then []
      else
        let lenderShare = lenderShareOf matching l;
            transferAmount = Mathb_min borrowerRemaining lenderShare
        in if transferAmount > 0 then
             \<lparr>lender = sender l, borrower = sender b, amount = transferAmount,
              rate = effectiveRate matching,
              transferMaturityTimestamp = groupMaturityTimestamp matching\<rparr>
             # lenderLoop matching b (borrowerRemaining - transferAmount) ls
           else lenderLoop matching b borrowerRemaining ls)"

definition groupTransfers :: "LoanMatching \<Rightarrow> LoanTransfer list" where
  "groupTransfers matching =
     (if feasibility matching = NONE \<or> feasibility matching = NO_RATE_OVERLAP \<or>
         feasibility matching = MATURITY_MISMATCH then []
      else
        let lenders = filter isLender (loanTasks matching);
            borrowers = filter (\<lambda>t. \<not> isLender t) (loanTasks matching)
        in concat (map (\<lambda>b. lenderLoop matching b (borrowerShareOf matching b) lenders)
                       borrowers))"

text \<open>The \<open>transfers\<close> of \<open>computeLoanTransfers\<close>; its \<open>analysis\<close> texts are left out.\<close>

definition computeLoanTransfers :: "LoanMatchingResult \<Rightarrow> LoanTransfer list" where
  "computeLoanTransfers result = concat (map groupTransfers (matchings result))"

section \<open>Partition generator\<close>

text \<open>
  \<open>ids.sort()\<close> without a comparator orders the ids by their decimal strings, compared
  code unit by code unit; the sort is stable.
\<close>

definition digitChar :: "nat \<Rightarrow> char" where
  "digitChar d = char_of (48 + d)"

fun decimal :: "nat \<Rightarrow> string" where
  "decimal n = (if n < 10 then [digitChar n] else decimal (n div 10) @ [digitChar (n mod 10)])"

declare decimal.simps [simp del]

definition sortDefault :: "nat list \<Rightarrow> nat list" where
  "sortDefault ids = sort_key decimal ids"

text \<open>
  The key of \<open>removeDuplicates\<close>: \<open>JSON.stringify\<close> of the sorted id lists of the groups,
  in the order of the groups. \<open>JSON.stringify\<close> is one-to-one on arrays of arrays of
  numbers, so the key is the nested list itself.
\<close>

definition combinationKey :: "LoanTask list list \<Rightarrow> nat list list" where
  "combinationKey combination = map (\<lambda>group. sortDefault (map taskId group)) combination"

fun filterUnique :: "nat list list list \<Rightarrow> LoanTask list list list \<Rightarrow> LoanTask list list list" where
  "filterUnique uniqueCombinations [] = []"
| "filterUnique uniqueCombinations (combination # rest) =
     (let key = combinationKey combination
      in if key \<notin> set uniqueCombinations
         then combination # filterUnique (key # uniqueCombinations) rest
         else filterUnique uniqueCombinations rest)"

definition removeDuplicates :: "LoanTask list list list \<Rightarrow> LoanTask list list list" where
  "removeDuplicates combinations = filterUnique [] combinations"

text \<open>
  The partitions that the second loop of \<open>generateLoanTaskCombinations\<close> pushes for one
  \<open>subComb\<close>: \<open>firstTask\<close> joins the first group, then each later group in turn. On a
  \<open>subComb\<close> with no group the source would push one group holding \<open>firstTask\<close> and
  \<open>undefined\<close>; no partition of a non-empty list has no group
  (lemma \<open>generate_groups\<close>), and the model pushes nothing there.
\<close>

fun combineFirst :: "LoanTask \<Rightarrow> LoanTask list list \<Rightarrow> LoanTask list list list" where
  "combineFirst firstTask [] = []"
| "combineFirst firstTask (g # gs) =
     ((firstTask # g) # gs) #
     map (\<lambda>i. take i (g # gs) @ [firstTask # ((g # gs) ! i)] @ drop (i + 1) (g # gs))
         [1..<length (g # gs)]"

fun generateLoanTaskCombinations :: "LoanTask list \<Rightarrow> LoanTask list list list" where
  "generateLoanTaskCombinations [] = []"
| "generateLoanTaskCombinations [t] = [[[t]]]"
| "generateLoanTaskCombinations (firstTask # t # ts) =
     (let restTasks = t # ts;
          subCombinations = generateLoanTaskCombinations restTasks
      in removeDuplicates
           ([[firstTask], restTasks]
            # map (\<lambda>subComb. [firstTask] # subComb) subCombinations
            @ concat (map (combineFirst firstTask) subCombinations)))"

section \<open>Notions of the specification\<close>

text \<open>
  The Bell numbers, as the row sums of the Stirling numbers of the second kind:
  \<open>stirling2 n k\<close> counts the partitions of \<open>n\<close> elements into \<open>k\<close> groups.
\<close>

fun stirling2 :: "nat \<Rightarrow> nat \<Rightarrow> nat" where
  "stirling2 0 0 = 1"
| "stirling2 0 (Suc k) = 0"
| "stirling2 (Suc n) 0 = 0"
| "stirling2 (Suc n) (Suc k) = Suc k * stirling2 n (Suc k) + stirling2 n k"

definition Bell :: "nat \<Rightarrow> nat" where
  "Bell n = sum_list (map (stirling2 n) [0..<Suc n])"

text \<open>
  The comparator of the selector as the specification words it: more matched amount; on a
  tie, more matching efficiency; on a further tie, a lower average rate.
\<close>

definition strictlyBetter :: "LoanMatchingResult \<Rightarrow> LoanMatchingResult \<Rightarrow> bool" where
  "strictlyBetter r b =
     (totalMatchedAmount r > totalMatchedAmount b \<or>
      (totalMatchedAmount r = totalMatchedAmount b \<and>
       (matchingEfficiency r > matchingEfficiency b \<or>
        (matchingEfficiency r = matchingEfficiency b \<and>
         averageBorrowerRate r < averageBorrowerRate b))))"

text \<open>
  What every result of the evaluator satisfies when no principal is negative: it is
  flagged feasible exactly when something is matched, and an infeasible result has a
  matched amount, an efficiency and an average rate of zero.
\<close>

definition evaluated :: "LoanMatchingResult \<Rightarrow> bool" where
  "evaluated r =
     (if feasible r then totalMatchedAmount r > 0
      else totalMatchedAmount r = 0 \<and> matchingEfficiency r = 0 \<and> averageBorrowerRate r = 0)"

text \<open>
  Position \<open>i\<close> leads the candidate list among the feasible candidates: no feasible
  candidate is strictly better, and every feasible candidate before it is strictly worse.
\<close>

definition leads :: "LoanMatchingResult list \<Rightarrow> nat \<Rightarrow> bool" where
  "leads rs i \<longleftrightarrow>
     i < length rs \<and> feasible (rs ! i) \<and>
     (\<forall>j < length rs. feasible (rs ! j) \<longrightarrow> \<not> strictlyBetter (rs ! j) (rs ! i)) \<and>
     (\<forall>j < i. feasible (rs ! j) \<longrightarrow> strictlyBetter (rs ! i) (rs ! j))"

definition isMatched :: "LoanMatching \<Rightarrow> bool" where
  "isMatched m =
     (feasibility m = FULL_MATCH \<or> feasibility m = PARTIAL_LENDER \<or>
      feasibility m = PARTIAL_BORROWER)"

text \<open>The lender-borrower pairings of the matched groups of a result.\<close>

definition groupPairings :: "LoanMatching \<Rightarrow> int" where
  "groupPairings m =
     (if isMatched m
      then int (length (filter isLender (loanTasks m))) *
           int (length (filter (\<lambda>t. \<not> isLender t) (loanTasks m)))
      else 0)"

definition pairings :: "LoanMatchingResult \<Rightarrow> int" where
  "pairings r = sum_list (map groupPairings (matchings r))"

definition sumAmounts :: "LoanTransfer list \<Rightarrow> int" where
  "sumAmounts ts = sum_list (map amount ts)"

text \<open>The amount that the transfers draw from one lender address.\<close>

definition drawnFrom :: "string \<Rightarrow> LoanTransfer list \<Rightarrow> int" where
  "drawnFrom a ts = sumAmounts (filter (\<lambda>t. lender t = a) ts)"

definition nonnegPrincipals :: "LoanTask list list \<Rightarrow> bool" where
  "nonnegPrincipals combination =
     list_all (list_all (\<lambda>t. 0 \<le> principalAmount t)) combination"

text \<open>The principal that a group holds on each side.\<close>

definition lenderTotal :: "LoanTask list \<Rightarrow> int" where
  "lenderTotal g = sum_list (map principalAmount (filter isLender g))"

definition borrowerTotal :: "LoanTask list \<Rightarrow> int" where
  "borrowerTotal g = sum_list (map principalAmount (filter (\<lambda>t. \<not> isLender t) g))"

text \<open>
  A multi-order group fails the evaluator's own checks when its rate check
  (\<open>minLenderRate > maxBorrowerRate\<close>) or its common-maturity check stops the loop body.
\<close>

definition failsChecks :: "LoanTask list \<Rightarrow> bool" where
  "failsChecks g =
     (length g \<noteq> 1 \<and>
      (minLenderRateOf (filter isLender g) > maxBorrowerRateOf (filter (\<lambda>t. \<not> isLender t) g) \<or>
       findCommonMaturities (filter isLender g) (filter (\<lambda>t. \<not> isLender t) g) = []))"

text \<open>What one pass of the evaluator's loop adds, and the group record it pushes.\<close>

definition groupTotals :: "LoanTask list \<Rightarrow> EvalTotals" where
  "groupTotals g = processGroup initialTotals g"

definition groupMatching :: "LoanTask list \<Rightarrow> LoanMatching" where
  "groupMatching g = last (accMatchings (groupTotals g))"

text \<open>
  A partition as the specification sees it: the set of its groups, each group a set. A
  list of groups is a true set partition of the orders \<open>ts\<close> when it has a group, no
  group is empty, and every order of \<open>ts\<close> stands exactly once in the groups.
\<close>

definition blocks :: "'a list list \<Rightarrow> 'a set set" where
  "blocks p = set (map set p)"

definition validPartition :: "'a list \<Rightarrow> 'a list list \<Rightarrow> bool" where
  "validPartition ts p \<longleftrightarrow>
     p \<noteq> [] \<and> [] \<notin> set p \<and> distinct (concat p) \<and> set (concat p) = set ts"

text \<open>
  The partitions that the two loops of the generator push, taken sub-partition by
  sub-partition; and a partition with one order removed from its groups.
\<close>

definition grouped :: "LoanTask \<Rightarrow> LoanTask list list list \<Rightarrow> LoanTask list list list" where
  "grouped f sub = concat (map (\<lambda>sc. ([f] # sc) # combineFirst f sc) sub)"

definition restrictBlocks :: "'a \<Rightarrow> 'a set set \<Rightarrow> 'a set set" where
  "restrictBlocks f Q = (\<lambda>b. b - {f}) ` Q - {{}}"

section \<open>Example orders\<close>

definition lenderOrder :: "nat \<Rightarrow> string \<Rightarrow> int \<Rightarrow> int \<Rightarrow> int \<Rightarrow> LoanTask" where
  "lenderOrder i a p r m =
     \<lparr>isLender = True, principalAmount = p, interestRateBips = r, maturityTimestamp = m,
      sender = a, taskId = i\<rparr>"

definition borrowerOrder :: "nat \<Rightarrow> string \<Rightarrow> int \<Rightarrow> int \<Rightarrow> int \<Rightarrow> LoanTask" where
  "borrowerOrder i a p r m =
     \<lparr>isLender = False, principalAmount = p, interestRateBips = r, maturityTimestamp = m,
      sender = a, taskId = i\<rparr>"

section \<open>Unfolding the model on concrete orders\<close>

lemmas example_defs = lenderOrder_def borrowerOrder_def

lemmas evaluator_defs =
  computeLoanMatchingResult_def processGroup_def initialTotals_def Let_def
  minLenderRateOf_def maxBorrowerRateOf_def Mathb_min_def Mathb_max_def MAX_SAFE_INTEGER_def
  findCommonMaturities_def newSet_def bigint_div_def divideFloor4_def
  determineFeasibilityType_def

lemmas filter_defs =
  isLoanCombinationPossible_def groupPossible_def Number_def roundToDouble_def newSet_def Let_def

lemmas transfer_defs =
  computeLoanTransfers_def groupTransfers_def lenderShareOf_def borrowerShareOf_def
  Mathb_min_def bigint_div_def Let_def

section \<open>The evaluator, group by group\<close>

lemma processGroup_additive:
  "accTotalLenderAmount (processGroup acc g) = accTotalLenderAmount acc + accTotalLenderAmount (groupTotals g)"
  "accTotalBorrowerAmount (processGroup acc g) = accTotalBorrowerAmount acc + accTotalBorrowerAmount (groupTotals g)"
  "accTotalMatchedAmount (processGroup acc g) = accTotalMatchedAmount acc + accTotalMatchedAmount (groupTotals g)"
  "accWeightedLenderRate (processGroup acc g) = accWeightedLenderRate acc + accWeightedLenderRate (groupTotals g)"
  "accWeightedBorrowerRate (processGroup acc g) = accWeightedBorrowerRate acc + accWeightedBorrowerRate (groupTotals g)"
  "accMatchings (processGroup acc g) = accMatchings acc @ accMatchings (groupTotals g)"
  by (simp_all add: groupTotals_def processGroup_def initialTotals_def Let_def)

lemma foldl_processGroup:
  "accTotalLenderAmount (foldl processGroup acc c) = accTotalLenderAmount acc + (\<Sum>g\<leftarrow>c. accTotalLenderAmount (groupTotals g))"
  "accTotalBorrowerAmount (foldl processGroup acc c) = accTotalBorrowerAmount acc + (\<Sum>g\<leftarrow>c. accTotalBorrowerAmount (groupTotals g))"
  "accTotalMatchedAmount (foldl processGroup acc c) = accTotalMatchedAmount acc + (\<Sum>g\<leftarrow>c. accTotalMatchedAmount (groupTotals g))"
  "accWeightedLenderRate (foldl processGroup acc c) = accWeightedLenderRate acc + (\<Sum>g\<leftarrow>c. accWeightedLenderRate (groupTotals g))"
  "accWeightedBorrowerRate (foldl processGroup acc c) = accWeightedBorrowerRate acc + (\<Sum>g\<leftarrow>c. accWeightedBorrowerRate (groupTotals g))"
  "accMatchings (foldl processGroup acc c) = accMatchings acc @ concat (map (\<lambda>g. accMatchings (groupTotals g)) c)"
  by (induction c arbitrary: acc; simp add: processGroup_additive)+

lemma length1_hd: "length g = 1 \<Longrightarrow> g = [hd g]"
  by (cases g) simp_all

lemma groupTotals_single:
  assumes "length g = 1"
  shows "accTotalLenderAmount (groupTotals g) = lenderTotal g"
    and "accTotalBorrowerAmount (groupTotals g) = borrowerTotal g"
    and "accTotalMatchedAmount (groupTotals g) = 0"
    and "accWeightedLenderRate (groupTotals g) = 0"
    and "accMatchings (groupTotals g) = [groupMatching g]"
    and "loanTasks (groupMatching g) = g"
    and "feasibility (groupMatching g) = NONE"
    and "matchedAmount (groupMatching g) = 0"
    and "effectiveRate (groupMatching g) = 0"
    and "groupTotalLenderAmount (groupMatching g) = lenderTotal g"
    and "groupTotalBorrowerAmount (groupMatching g) = borrowerTotal g"
proof -
  obtain t where g: "g = [t]" using assms length1_hd by blast
  show "accTotalLenderAmount (groupTotals g) = lenderTotal g"
    and "accTotalBorrowerAmount (groupTotals g) = borrowerTotal g"
    and "accTotalMatchedAmount (groupTotals g) = 0"
    and "accWeightedLenderRate (groupTotals g) = 0"
    and "accMatchings (groupTotals g) = [groupMatching g]"
    and "loanTasks (groupMatching g) = g"
    and "feasibility (groupMatching g) = NONE"
    and "matchedAmount (groupMatching g) = 0"
    and "effectiveRate (groupMatching g) = 0"
    and "groupTotalLenderAmount (groupMatching g) = lenderTotal g"
    and "groupTotalBorrowerAmount (groupMatching g) = borrowerTotal g"
    by (simp_all add: g groupMatching_def groupTotals_def processGroup_def initialTotals_def
        lenderTotal_def borrowerTotal_def)
qed

lemma groupTotals_fails:
  assumes "failsChecks g"
  shows "accTotalLenderAmount (groupTotals g) = 0"
    and "accTotalBorrowerAmount (groupTotals g) = 0"
    and "accTotalMatchedAmount (groupTotals g) = 0"
    and "accWeightedLenderRate (groupTotals g) = 0"
    and "accMatchings (groupTotals g) = [groupMatching g]"
    and "loanTasks (groupMatching g) = g"
    and "feasibility (groupMatching g) = NO_RATE_OVERLAP \<or> feasibility (groupMatching g) = MATURITY_MISMATCH"
    and "matchedAmount (groupMatching g) = 0"
    and "effectiveRate (groupMatching g) = 0"
    and "groupTotalLenderAmount (groupMatching g) = lenderTotal g"
    and "groupTotalBorrowerAmount (groupMatching g) = borrowerTotal g"
  using assms
  by (auto simp add: failsChecks_def groupMatching_def groupTotals_def processGroup_def
      initialTotals_def lenderTotal_def borrowerTotal_def Let_def)

lemma groupTotals_matched:
  assumes "length g \<noteq> 1" and "\<not> failsChecks g"
  shows "accTotalLenderAmount (groupTotals g) = lenderTotal g"
    and "accTotalBorrowerAmount (groupTotals g) = borrowerTotal g"
    and "accTotalMatchedAmount (groupTotals g) = Mathb_min (lenderTotal g) (borrowerTotal g)"
    and "accMatchings (groupTotals g) = [groupMatching g]"
    and "loanTasks (groupMatching g) = g"
    and "isMatched (groupMatching g)"
    and "matchedAmount (groupMatching g) = Mathb_min (lenderTotal g) (borrowerTotal g)"
    and "effectiveRate (groupMatching g) =
           bigint_div (minLenderRateOf (filter isLender g) +
                       maxBorrowerRateOf (filter (\<lambda>t. \<not> isLender t) g)) 2"
    and "groupMaturityTimestamp (groupMatching g) =
           hd (findCommonMaturities (filter isLender g) (filter (\<lambda>t. \<not> isLender t) g))"
    and "groupTotalLenderAmount (groupMatching g) = lenderTotal g"
    and "groupTotalBorrowerAmount (groupMatching g) = borrowerTotal g"
  using assms
  by (simp_all add: failsChecks_def groupMatching_def groupTotals_def processGroup_def
      initialTotals_def lenderTotal_def borrowerTotal_def Let_def isMatched_def)


lemma result_fields:
  "matchings (computeLoanMatchingResult c) = concat (map (\<lambda>g. accMatchings (groupTotals g)) c)"
  "totalLenderAmount (computeLoanMatchingResult c) = (\<Sum>g\<leftarrow>c. accTotalLenderAmount (groupTotals g))"
  "totalBorrowerAmount (computeLoanMatchingResult c) = (\<Sum>g\<leftarrow>c. accTotalBorrowerAmount (groupTotals g))"
  "totalMatchedAmount (computeLoanMatchingResult c) = (\<Sum>g\<leftarrow>c. accTotalMatchedAmount (groupTotals g))"
  "unmatchedLenderAmount (computeLoanMatchingResult c) =
     totalLenderAmount (computeLoanMatchingResult c) - totalMatchedAmount (computeLoanMatchingResult c)"
  "unmatchedBorrowerAmount (computeLoanMatchingResult c) =
     totalBorrowerAmount (computeLoanMatchingResult c) - totalMatchedAmount (computeLoanMatchingResult c)"
  "feasible (computeLoanMatchingResult c) = (totalMatchedAmount (computeLoanMatchingResult c) > 0)"
  by (simp_all add: computeLoanMatchingResult_def Let_def foldl_processGroup initialTotals_def)

lemma groupTotals_cases:
  obtains (single) "length g = 1" | (fails) "failsChecks g" | (matched) "length g \<noteq> 1" "\<not> failsChecks g"
  by blast

lemma accMatchings_groupTotals: "accMatchings (groupTotals g) = [groupMatching g]"
  by (cases g rule: groupTotals_cases)
     (simp_all add: groupTotals_single groupTotals_fails groupTotals_matched)

lemma matchings_result: "matchings (computeLoanMatchingResult c) = map groupMatching c"
  by (induction c) (simp_all add: result_fields accMatchings_groupTotals)

lemma loanTasks_groupMatching: "loanTasks (groupMatching g) = g"
  by (cases g rule: groupTotals_cases)
     (simp_all add: groupTotals_single groupTotals_fails groupTotals_matched)

lemma group_side_totals:
  "groupTotalLenderAmount (groupMatching g) = lenderTotal g"
  "groupTotalBorrowerAmount (groupMatching g) = borrowerTotal g"
  by (cases g rule: groupTotals_cases;
      simp add: groupTotals_single groupTotals_fails groupTotals_matched)+

lemma matched_total_is_group_matched:
  "accTotalMatchedAmount (groupTotals g) = matchedAmount (groupMatching g)"
  by (cases g rule: groupTotals_cases)
     (simp_all add: groupTotals_single groupTotals_fails groupTotals_matched)

section \<open>Selector: empty and all-infeasible candidate lists\<close>

lemma selectStep_infeasible: "\<not> feasible r \<Longrightarrow> selectStep best r = best"
  by (simp add: selectStep_def)

lemma foldl_selectStep_infeasible:
  "\<forall>r \<in> set rs. \<not> feasible r \<Longrightarrow> foldl selectStep best rs = best"
  by (induction rs arbitrary: best) (simp_all add: selectStep_infeasible)

text \<open>
  C1 (as stated, refuted): on the empty candidate list the selector does not fail with
  \<open>EmptyResultSet\<close>.
\<close>

theorem C1_empty_no_error: "computeBestLoanResult [] \<noteq> Inl EmptyResultSet"
  by (simp add: computeBestLoanResult_def)

text \<open>
  C1 (amended): on the empty candidate list the selector returns normally, and what it
  returns is \<open>undefined\<close>; no error is raised.
\<close>

theorem C1_empty_returns_undefined: "computeBestLoanResult [] = Inr None"
  by (simp add: computeBestLoanResult_def)

text \<open>
  C9: on a non-empty candidate list with no feasible candidate the selector does not fail
  and returns the first element of the list unchanged.
\<close>

theorem C9_all_infeasible_returns_first:
  assumes "possibleResults \<noteq> []" and "\<forall>r \<in> set possibleResults. \<not> feasible r"
  shows "computeBestLoanResult possibleResults = Inr (Some (hd possibleResults))"
  using assms
  by (cases possibleResults)
     (simp_all add: computeBestLoanResult_def foldl_selectStep_infeasible
        del: foldl_Cons)

text \<open>C9 at one infeasible candidate: a lone lender, nothing matched.\<close>

theorem C9_witness:
  "[computeLoanMatchingResult [[lenderOrder 1 ''L1'' 100 500 1000]]] \<noteq> [] \<and>
   \<not> feasible (computeLoanMatchingResult [[lenderOrder 1 ''L1'' 100 500 1000]]) \<and>
   computeBestLoanResult [computeLoanMatchingResult [[lenderOrder 1 ''L1'' 100 500 1000]]]
     = Inr (Some (computeLoanMatchingResult [[lenderOrder 1 ''L1'' 100 500 1000]]))"
  using C9_all_infeasible_returns_first [of "[computeLoanMatchingResult [[lenderOrder 1 ''L1'' 100 500 1000]]]"]
  by (simp add: result_fields groupTotals_single)

section \<open>Groups that fail the evaluator's checks\<close>

text \<open>
  C10: a multi-order group that fails the evaluator's rate-overlap or common-maturity check
  leaves the total lender, borrower and matched amounts and both unmatched amounts as they
  are without the group, wherever it stands in the partition; a singleton group adds its
  principal to the total of its side.
\<close>

theorem C10_failed_group_contributes_nothing:
  "(failsChecks g \<longrightarrow>
      totalLenderAmount (computeLoanMatchingResult (pre @ g # post))
        = totalLenderAmount (computeLoanMatchingResult (pre @ post)) \<and>
      totalBorrowerAmount (computeLoanMatchingResult (pre @ g # post))
        = totalBorrowerAmount (computeLoanMatchingResult (pre @ post)) \<and>
      totalMatchedAmount (computeLoanMatchingResult (pre @ g # post))
        = totalMatchedAmount (computeLoanMatchingResult (pre @ post)) \<and>
      unmatchedLenderAmount (computeLoanMatchingResult (pre @ g # post))
        = unmatchedLenderAmount (computeLoanMatchingResult (pre @ post)) \<and>
      unmatchedBorrowerAmount (computeLoanMatchingResult (pre @ g # post))
        = unmatchedBorrowerAmount (computeLoanMatchingResult (pre @ post))) \<and>
   (length g = 1 \<longrightarrow>
      totalLenderAmount (computeLoanMatchingResult (pre @ g # post))
        = totalLenderAmount (computeLoanMatchingResult (pre @ post))
          + (if isLender (hd g) then principalAmount (hd g) else 0) \<and>
      totalBorrowerAmount (computeLoanMatchingResult (pre @ g # post))
        = totalBorrowerAmount (computeLoanMatchingResult (pre @ post))
          + (if isLender (hd g) then 0 else principalAmount (hd g)))"
proof (intro conjI impI)
  assume f: "failsChecks g"
  show "totalLenderAmount (computeLoanMatchingResult (pre @ g # post))
        = totalLenderAmount (computeLoanMatchingResult (pre @ post))"
    and "totalBorrowerAmount (computeLoanMatchingResult (pre @ g # post))
        = totalBorrowerAmount (computeLoanMatchingResult (pre @ post))"
    and m: "totalMatchedAmount (computeLoanMatchingResult (pre @ g # post))
        = totalMatchedAmount (computeLoanMatchingResult (pre @ post))"
    by (simp_all add: result_fields(2-4) groupTotals_fails [OF f])
  then show "unmatchedLenderAmount (computeLoanMatchingResult (pre @ g # post))
        = unmatchedLenderAmount (computeLoanMatchingResult (pre @ post))"
    and "unmatchedBorrowerAmount (computeLoanMatchingResult (pre @ g # post))
        = unmatchedBorrowerAmount (computeLoanMatchingResult (pre @ post))"
    by (simp_all add: result_fields(5-6))
next
  assume s: "length g = 1"
  then obtain t where g: "g = [t]" using length1_hd by blast
  show "totalLenderAmount (computeLoanMatchingResult (pre @ g # post))
        = totalLenderAmount (computeLoanMatchingResult (pre @ post))
          + (if isLender (hd g) then principalAmount (hd g) else 0)"
    and "totalBorrowerAmount (computeLoanMatchingResult (pre @ g # post))
        = totalBorrowerAmount (computeLoanMatchingResult (pre @ post))
          + (if isLender (hd g) then 0 else principalAmount (hd g))"
    by (simp_all add: result_fields(2-4) groupTotals_single [OF s])
       (simp_all add: g lenderTotal_def borrowerTotal_def)
qed


text \<open>C10 at a lender asking 9% beside a borrower offering 5%, and at a lone borrower.\<close>

theorem C10_witness:
  "failsChecks [lenderOrder 1 ''L1'' 100 900 1000, borrowerOrder 2 ''B2'' 80 500 1000] \<and>
   length [borrowerOrder 4 ''B4'' 30 500 1000] = 1 \<and>
   totalLenderAmount (computeLoanMatchingResult
      [[lenderOrder 3 ''L3'' 70 500 1000], [lenderOrder 1 ''L1'' 100 900 1000, borrowerOrder 2 ''B2'' 80 500 1000]]) = 70 \<and>
   totalBorrowerAmount (computeLoanMatchingResult
      [[lenderOrder 3 ''L3'' 70 500 1000], [lenderOrder 1 ''L1'' 100 900 1000, borrowerOrder 2 ''B2'' 80 500 1000]]) = 0 \<and>
   totalBorrowerAmount (computeLoanMatchingResult
      [[lenderOrder 3 ''L3'' 70 500 1000], [borrowerOrder 4 ''B4'' 30 500 1000]]) = 30"
  using C10_failed_group_contributes_nothing
          [of "[lenderOrder 1 ''L1'' 100 900 1000, borrowerOrder 2 ''B2'' 80 500 1000]"
              "[[lenderOrder 3 ''L3'' 70 500 1000]]" "[]"]
        C10_failed_group_contributes_nothing
          [of "[borrowerOrder 4 ''B4'' 30 500 1000]" "[[lenderOrder 3 ''L3'' 70 500 1000]]" "[]"]
  by (simp add: failsChecks_def minLenderRateOf_def maxBorrowerRateOf_def Mathb_min_def
        Mathb_max_def MAX_SAFE_INTEGER_def lenderOrder_def borrowerOrder_def
        result_fields groupTotals_single lenderTotal_def borrowerTotal_def)

section \<open>Bounds on the matched amounts\<close>

lemma lenderTotal_nonneg: "list_all (\<lambda>t. 0 \<le> principalAmount t) g \<Longrightarrow> 0 \<le> lenderTotal g"
  unfolding lenderTotal_def by (induction g) auto

lemma borrowerTotal_nonneg: "list_all (\<lambda>t. 0 \<le> principalAmount t) g \<Longrightarrow> 0 \<le> borrowerTotal g"
  unfolding borrowerTotal_def by (induction g) auto

lemma group_matched_bounds:
  assumes "list_all (\<lambda>t. 0 \<le> principalAmount t) g"
  shows "0 \<le> matchedAmount (groupMatching g)"
    and "matchedAmount (groupMatching g) \<le> lenderTotal g"
    and "matchedAmount (groupMatching g) \<le> borrowerTotal g"
    and "matchedAmount (groupMatching g) \<le> accTotalLenderAmount (groupTotals g)"
    and "matchedAmount (groupMatching g) \<le> accTotalBorrowerAmount (groupTotals g)"
  using lenderTotal_nonneg [OF assms] borrowerTotal_nonneg [OF assms]
  by (cases g rule: groupTotals_cases;
      simp add: groupTotals_single groupTotals_fails groupTotals_matched Mathb_min_def)+

lemma sum_groups_bounds:
  assumes "list_all (list_all (\<lambda>t. 0 \<le> principalAmount t)) c"
  shows "0 \<le> (\<Sum>g\<leftarrow>c. matchedAmount (groupMatching g))"
    and "(\<Sum>g\<leftarrow>c. matchedAmount (groupMatching g)) \<le> (\<Sum>g\<leftarrow>c. accTotalLenderAmount (groupTotals g))"
    and "(\<Sum>g\<leftarrow>c. matchedAmount (groupMatching g)) \<le> (\<Sum>g\<leftarrow>c. accTotalBorrowerAmount (groupTotals g))"
  using assms
proof (induction c)
  case Nil
  { case 1 show ?case by simp }
  { case 2 show ?case by simp }
  { case 3 show ?case by simp }
next
  case (Cons g c)
  { case 1 
    then show ?case using Cons.IH(1) group_matched_bounds(1) [of g] by simp }
  { case 2
    then show ?case using Cons.IH(2) group_matched_bounds(4) [of g] by simp }
  { case 3
    then show ?case using Cons.IH(3) group_matched_bounds(5) [of g] by simp }
qed

lemma totals_bounds:
  assumes "nonnegPrincipals c"
  shows "0 \<le> totalMatchedAmount (computeLoanMatchingResult c)"
    and "totalMatchedAmount (computeLoanMatchingResult c) \<le> totalLenderAmount (computeLoanMatchingResult c)"
    and "totalMatchedAmount (computeLoanMatchingResult c) \<le> totalBorrowerAmount (computeLoanMatchingResult c)"
  using sum_groups_bounds [of c] assms
  unfolding result_fields nonnegPrincipals_def matched_total_is_group_matched
  by simp_all

text \<open>
  C8: when no principal is negative, every group of the result has a matched amount of at
  most the smaller of its lender total and its borrower total, which are the sums of the
  principals of its orders by side, and both unmatched amounts of the result are at least
  zero.
\<close>

theorem C8_matched_bounded_unmatched_nonneg:
  assumes "nonnegPrincipals combination"
  shows "(\<forall>m \<in> set (matchings (computeLoanMatchingResult combination)).
            matchedAmount m \<le> min (groupTotalLenderAmount m) (groupTotalBorrowerAmount m) \<and>
            groupTotalLenderAmount m = lenderTotal (loanTasks m) \<and>
            groupTotalBorrowerAmount m = borrowerTotal (loanTasks m)) \<and>
         0 \<le> unmatchedLenderAmount (computeLoanMatchingResult combination) \<and>
         0 \<le> unmatchedBorrowerAmount (computeLoanMatchingResult combination)"
proof (intro conjI ballI)
  fix m assume "m \<in> set (matchings (computeLoanMatchingResult combination))"
  then obtain g where g: "g \<in> set combination" and m: "m = groupMatching g"
    by (auto simp: matchings_result)
  from g assms have nn: "list_all (\<lambda>t. 0 \<le> principalAmount t) g"
    by (simp add: nonnegPrincipals_def list_all_iff)
  show "matchedAmount m \<le> min (groupTotalLenderAmount m) (groupTotalBorrowerAmount m)"
    using group_matched_bounds(2,3) [OF nn] by (simp add: m group_side_totals)
  show "groupTotalLenderAmount m = lenderTotal (loanTasks m)"
    and "groupTotalBorrowerAmount m = borrowerTotal (loanTasks m)"
    by (simp_all add: m group_side_totals loanTasks_groupMatching)
next
  show "0 \<le> unmatchedLenderAmount (computeLoanMatchingResult combination)"
    and "0 \<le> unmatchedBorrowerAmount (computeLoanMatchingResult combination)"
    using totals_bounds [OF assms] by (simp_all add: result_fields(5,6))
qed

text \<open>C8 at a group of two lenders and one borrower beside a lone borrower.\<close>

theorem C8_witness:
  "nonnegPrincipals [[lenderOrder 1 ''L1'' 100 500 1000, lenderOrder 2 ''L2'' 200 500 1000, borrowerOrder 3 ''B3'' 200 600 1000],
                     [borrowerOrder 4 ''B4'' 50 600 1000]] \<and>
   0 \<le> unmatchedLenderAmount (computeLoanMatchingResult
          [[lenderOrder 1 ''L1'' 100 500 1000, lenderOrder 2 ''L2'' 200 500 1000, borrowerOrder 3 ''B3'' 200 600 1000],
           [borrowerOrder 4 ''B4'' 50 600 1000]]) \<and>
   0 \<le> unmatchedBorrowerAmount (computeLoanMatchingResult
          [[lenderOrder 1 ''L1'' 100 500 1000, lenderOrder 2 ''L2'' 200 500 1000, borrowerOrder 3 ''B3'' 200 600 1000],
           [borrowerOrder 4 ''B4'' 50 600 1000]])"
  using C8_matched_bounded_unmatched_nonneg
    [of "[[lenderOrder 1 ''L1'' 100 500 1000, lenderOrder 2 ''L2'' 200 500 1000, borrowerOrder 3 ''B3'' 200 600 1000],
          [borrowerOrder 4 ''B4'' 50 600 1000]]"]
  by (simp add: nonnegPrincipals_def lenderOrder_def borrowerOrder_def)

section \<open>Maturities\<close>

lemma set_newSet_aux:
  "set (foldl (\<lambda>acc x. if x \<in> set acc then acc else acc @ [x]) acc xs) = set acc \<union> set xs"
  by (induction xs arbitrary: acc) auto

lemma set_newSet: "set (newSet xs) = set xs"
  by (simp add: newSet_def set_newSet_aux)

lemma set_findCommonMaturities:
  "set (findCommonMaturities ls bs) = maturityTimestamp ` set ls \<inter> maturityTimestamp ` set bs"
  by (auto simp: findCommonMaturities_def Let_def set_newSet)

lemma hd_findCommonMaturities:
  assumes "findCommonMaturities ls bs \<noteq> []"
  shows "hd (findCommonMaturities ls bs) = Min (maturityTimestamp ` set ls \<inter> maturityTimestamp ` set bs)"
proof -
  have s: "sorted (findCommonMaturities ls bs)"
    by (simp add: findCommonMaturities_def Let_def)
  obtain x xs where e: "findCommonMaturities ls bs = x # xs"
    using assms by (cases "findCommonMaturities ls bs") auto
  have "Min (set (x # xs)) = x"
    using s unfolding e by (intro Min_eqI) auto
  then show ?thesis
    using set_findCommonMaturities [of ls bs] by (simp add: e)
qed

lemma groupPossible_common:
  assumes "groupPossible g"
  shows "filter isLender g \<noteq> []" and "filter (\<lambda>t. \<not> isLender t) g \<noteq> []"
    and "Math_min (map (\<lambda>l. Number (interestRateBips l)) (filter isLender g))
           \<le> Math_max (map (\<lambda>b. Number (interestRateBips b)) (filter (\<lambda>t. \<not> isLender t) g))"
    and "findCommonMaturities (filter isLender g) (filter (\<lambda>t. \<not> isLender t) g) \<noteq> []"
proof -
  show 1: "filter isLender g \<noteq> []" and 2: "filter (\<lambda>t. \<not> isLender t) g \<noteq> []"
    using assms by (auto simp: groupPossible_def Let_def split: if_splits)
  show "Math_min (map (\<lambda>l. Number (interestRateBips l)) (filter isLender g))
           \<le> Math_max (map (\<lambda>b. Number (interestRateBips b)) (filter (\<lambda>t. \<not> isLender t) g))"
    using assms 1 2 by (simp add: groupPossible_def Let_def split: if_splits)
  have "list_ex (\<lambda>m. m \<in> set (newSet (map maturityTimestamp (filter (\<lambda>t. \<not> isLender t) g))))
          (newSet (map maturityTimestamp (filter isLender g)))"
    using assms 1 2 by (simp add: groupPossible_def Let_def split: if_splits)
  then have "set (findCommonMaturities (filter isLender g) (filter (\<lambda>t. \<not> isLender t) g)) \<noteq> {}"
    unfolding set_findCommonMaturities by (auto simp: list_ex_iff set_newSet)
  then show "findCommonMaturities (filter isLender g) (filter (\<lambda>t. \<not> isLender t) g) \<noteq> []"
    by auto
qed

lemma common_maturity_pair:
  assumes "findCommonMaturities (filter isLender g) (filter (\<lambda>t. \<not> isLender t) g) \<noteq> []"
  shows "\<exists>l \<in> set g. \<exists>b \<in> set g. isLender l \<and> \<not> isLender b \<and>
           maturityTimestamp l = maturityTimestamp b \<and>
           maturityTimestamp l = hd (findCommonMaturities (filter isLender g) (filter (\<lambda>t. \<not> isLender t) g))"
proof -
  let ?c = "findCommonMaturities (filter isLender g) (filter (\<lambda>t. \<not> isLender t) g)"
  have "hd ?c \<in> set ?c" using assms by simp
  then obtain l b where "l \<in> set g" "isLender l" "b \<in> set g" "\<not> isLender b"
    "maturityTimestamp l = hd ?c" "maturityTimestamp b = hd ?c"
    unfolding set_findCommonMaturities by auto
  then show ?thesis by metis
qed

lemma isMatched_groupMatching:
  "isMatched (groupMatching g) \<longleftrightarrow> length g \<noteq> 1 \<and> \<not> failsChecks g"
  using groupTotals_single(7) [of g] groupTotals_fails(7) [of g] groupTotals_matched(6) [of g]
  by (auto simp: isMatched_def)


section \<open>The clearing rate of a group\<close>

lemma Number_exact: "\<bar>x\<bar> \<le> 2 ^ 53 \<Longrightarrow> Number x = x"
  by (auto simp: Number_def roundToDouble_def nat_le_iff)

lemma Math_min_Min: "xs \<noteq> [] \<Longrightarrow> Math_min xs = Min (set xs)"
proof (cases xs)
  case (Cons x ys)
  have "(\<lambda>a s. min s a) = (min :: int \<Rightarrow> int \<Rightarrow> int)"
    by (intro ext) (rule min.commute)
  then show ?thesis
    by (simp add: Cons Min.set_eq_fold foldl_conv_fold del: set_simps)
qed simp

lemma Math_max_Max: "xs \<noteq> [] \<Longrightarrow> Math_max xs = Max (set xs)"
proof (cases xs)
  case (Cons x ys)
  have "(\<lambda>a s. max s a) = (max :: int \<Rightarrow> int \<Rightarrow> int)"
    by (intro ext) (rule max.commute)
  then show ?thesis
    by (simp add: Cons Max.set_eq_fold foldl_conv_fold del: set_simps)
qed simp

lemma foldl_Mathb_min: "foldl (\<lambda>m l. Mathb_min m (f l)) a xs = Min (insert a (f ` set xs))"
proof (induction xs arbitrary: a)
  case (Cons x xs)
  have "Min (insert (Mathb_min a (f x)) (f ` set xs)) = Min (insert a (insert (f x) (f ` set xs)))"
    by (cases "xs = []") (auto simp: Mathb_min_def min_def)
  then show ?case by (simp add: Cons)
qed simp

lemma foldl_Mathb_max: "foldl (\<lambda>m l. Mathb_max m (f l)) a xs = Max (insert a (f ` set xs))"
proof (induction xs arbitrary: a)
  case (Cons x xs)
  have "Max (insert (Mathb_max a (f x)) (f ` set xs)) = Max (insert a (insert (f x) (f ` set xs)))"
    by (cases "xs = []") (auto simp: Mathb_max_def max_def)
  then show ?case by (simp add: Cons)
qed simp

lemma minLenderRateOf_Min:
  assumes "ls \<noteq> []" and "\<forall>l \<in> set ls. interestRateBips l \<le> MAX_SAFE_INTEGER"
  shows "minLenderRateOf ls = Min (interestRateBips ` set ls)"
proof -
  have "Min (interestRateBips ` set ls) \<le> MAX_SAFE_INTEGER"
    using assms by (cases ls) (auto simp: Min_le_iff)
  moreover have "Min (insert MAX_SAFE_INTEGER (interestRateBips ` set ls))
      = min MAX_SAFE_INTEGER (Min (interestRateBips ` set ls))"
    using assms(1) by (intro Min_insert) auto
  ultimately show ?thesis
    by (simp add: minLenderRateOf_def foldl_Mathb_min)
qed

lemma maxBorrowerRateOf_Max:
  assumes "bs \<noteq> []" and "\<forall>b \<in> set bs. 0 \<le> interestRateBips b"
  shows "maxBorrowerRateOf bs = Max (interestRateBips ` set bs)"
proof -
  have "0 \<le> Max (interestRateBips ` set bs)"
    using assms by (cases bs) (auto simp: Max_ge_iff)
  moreover have "Max (insert 0 (interestRateBips ` set bs))
      = max 0 (Max (interestRateBips ` set bs))"
    using assms(1) by (intro Max_insert) auto
  ultimately show ?thesis
    by (simp add: maxBorrowerRateOf_def foldl_Mathb_max)
qed

lemma bigint_div_nonneg: "0 \<le> a \<Longrightarrow> 0 < b \<Longrightarrow> bigint_div a b = a div b"
  by (cases "a = 0") (simp_all add: bigint_div_def)


text \<open>
  C7 (amended): for every multi-order group of a partition that passed the feasibility
  filter, all of whose rates lie between 0 and \<open>Number.MAX_SAFE_INTEGER\<close>, the evaluator
  sets the group's effective rate to the floor of half the sum of the least lender rate
  and the greatest borrower rate of the group.
\<close>

theorem C7_effective_rate_is_midpoint:
  assumes "isLoanCombinationPossible combination"
    and "i < length combination"
    and "length (combination ! i) \<noteq> 1"
    and "\<forall>t \<in> set (combination ! i).
           0 \<le> interestRateBips t \<and> interestRateBips t \<le> MAX_SAFE_INTEGER"
  shows "effectiveRate (matchings (computeLoanMatchingResult combination) ! i) =
           (Min (interestRateBips ` set (filter isLender (combination ! i))) +
            Max (interestRateBips ` set (filter (\<lambda>t. \<not> isLender t) (combination ! i)))) div 2"
proof -
  let ?g = "combination ! i"
  let ?ls = "filter isLender ?g" and ?bs = "filter (\<lambda>t. \<not> isLender t) ?g"
  have "?g \<in> set combination" using assms(2) by simp
  with assms(1,3) have gp: "groupPossible ?g"
    by (auto simp: isLoanCombinationPossible_def list_all_iff)
  note ne = groupPossible_common(1,2) [OF gp]
  have safe: "\<bar>interestRateBips t\<bar> \<le> 2 ^ 53" if "t \<in> set ?g" for t
    using assms(4) that by (auto simp: MAX_SAFE_INTEGER_def)
  have nl: "map (\<lambda>l. Number (interestRateBips l)) ?ls = map interestRateBips ?ls"
    by (rule map_cong [OF refl]) (auto intro!: Number_exact safe)
  have nb: "map (\<lambda>b. Number (interestRateBips b)) ?bs = map interestRateBips ?bs"
    by (rule map_cong [OF refl]) (auto intro!: Number_exact safe)
  have lo: "minLenderRateOf ?ls = Min (interestRateBips ` set ?ls)"
    using assms(4) by (intro minLenderRateOf_Min ne) auto
  have hi: "maxBorrowerRateOf ?bs = Max (interestRateBips ` set ?bs)"
    using assms(4) by (intro maxBorrowerRateOf_Max ne) auto
  have "Min (interestRateBips ` set ?ls) \<le> Max (interestRateBips ` set ?bs)"
    using groupPossible_common(3) [OF gp] ne unfolding nl nb
    by (simp add: Math_min_Min Math_max_Max)
  moreover have "0 \<le> Min (interestRateBips ` set ?ls)"
  proof -
    have "set ?ls \<noteq> {}" using ne(1) by (simp del: set_filter)
    moreover have "\<forall>l \<in> set ?ls. 0 \<le> interestRateBips l" using assms(4) by simp
    ultimately show ?thesis by (subst Min_ge_iff) auto
  qed
  ultimately have pos: "0 \<le> Min (interestRateBips ` set ?ls) + Max (interestRateBips ` set ?bs)"
    by linarith
  have nf: "\<not> failsChecks ?g"
    using groupPossible_common(4) [OF gp]
      \<open>Min (interestRateBips ` set ?ls) \<le> Max (interestRateBips ` set ?bs)\<close>
    by (simp add: failsChecks_def lo hi)
  have "matchings (computeLoanMatchingResult combination) ! i = groupMatching ?g"
    using assms(2) by (simp add: matchings_result)
  then show ?thesis
    using groupTotals_matched(8) [OF assms(3) nf] pos
    by (simp add: lo hi bigint_div_nonneg)
qed

text \<open>
  C7 (as stated, refuted): a lender and a borrower both at the rate \<open>2 ^ 53\<close> pass the
  filter; the evaluator starts its minimum at \<open>Number.MAX_SAFE_INTEGER = 2 ^ 53 - 1\<close>, so
  the effective rate is \<open>2 ^ 53 - 1\<close> and not the midpoint \<open>2 ^ 53\<close>.
\<close>

theorem C7_counterexample:
  "isLoanCombinationPossible
     [[lenderOrder 1 ''L1'' 100 9007199254740992 1000,
       borrowerOrder 2 ''B2'' 100 9007199254740992 1000]] \<and>
   map effectiveRate (matchings (computeLoanMatchingResult
     [[lenderOrder 1 ''L1'' 100 9007199254740992 1000,
       borrowerOrder 2 ''B2'' 100 9007199254740992 1000]])) = [9007199254740991] \<and>
   (9007199254740992 + 9007199254740992) div 2 \<noteq> (9007199254740991 :: int)"
  by (simp add: example_defs evaluator_defs filter_defs)

text \<open>C7 (amended) at lenders asking 5% and 4.5% and a borrower offering 5.75%.\<close>

theorem C7_witness:
  "isLoanCombinationPossible
     [[lenderOrder 1 ''L1'' 100 500 1000, lenderOrder 2 ''L2'' 100 450 1000,
       borrowerOrder 3 ''B3'' 100 575 1000]] \<and>
   effectiveRate (matchings (computeLoanMatchingResult
     [[lenderOrder 1 ''L1'' 100 500 1000, lenderOrder 2 ''L2'' 100 450 1000,
       borrowerOrder 3 ''B3'' 100 575 1000]]) ! 0) = 512"
  using C7_effective_rate_is_midpoint
    [of "[[lenderOrder 1 ''L1'' 100 500 1000, lenderOrder 2 ''L2'' 100 450 1000,
           borrowerOrder 3 ''B3'' 100 575 1000]]" 0]
  by (simp add: example_defs filter_defs MAX_SAFE_INTEGER_def)

section \<open>Transfers and rounding dust\<close>

lemma shares_upper:
  fixes T M :: int
  assumes "0 < T"
  shows "T * (\<Sum>p\<leftarrow>ps. (p * M) div T) \<le> M * sum_list ps"
proof (induction ps)
  case (Cons p ps)
  have "T * ((p * M) div T) \<le> p * M"
    using assms mult_div_mod_eq [of T "p * M"] pos_mod_sign [of T "p * M"] by linarith
  with Cons show ?case by (simp add: algebra_simps)
qed simp

lemma shares_lower:
  fixes T M :: int
  assumes "0 < T"
  shows "M * sum_list ps - T * (\<Sum>p\<leftarrow>ps. (p * M) div T) \<le> int (length ps) * (T - 1)"
proof (induction ps)
  case (Cons p ps)
  have "p * M - T * ((p * M) div T) = (p * M) mod T"
    by (simp add: minus_mult_div_eq_mod)
  moreover have "(p * M) mod T \<le> T - 1"
    using assms by (simp add: zle_diff1_eq)
  ultimately have "p * M - T * ((p * M) div T) \<le> T - 1" by simp
  with Cons show ?case by (simp add: algebra_simps)
qed simp


lemma sumAmounts_append: "sumAmounts (xs @ ys) = sumAmounts xs + sumAmounts ys"
  by (simp add: sumAmounts_def)

lemma sumAmounts_concat: "sumAmounts (concat xss) = (\<Sum>xs\<leftarrow>xss. sumAmounts xs)"
  by (induction xss) (simp_all add: sumAmounts_append, simp add: sumAmounts_def)

lemma sumAmounts_lenderLoop:
  assumes "\<forall>l \<in> set ls. 0 \<le> lenderShareOf m l" and "0 \<le> rem"
  shows "sumAmounts (lenderLoop m b rem ls) = min rem (\<Sum>l\<leftarrow>ls. lenderShareOf m l)"
  using assms
proof (induction ls arbitrary: rem)
  case Nil
  then show ?case by (simp add: sumAmounts_def)
next
  case (Cons l ls)
  have rest: "0 \<le> (\<Sum>l\<leftarrow>ls. lenderShareOf m l)"
    using Cons.prems(1) by (intro sum_list_nonneg) auto
  have sh: "0 \<le> lenderShareOf m l" using Cons.prems(1) by simp
  show ?case
  proof (cases "rem = 0")
    case True
    then show ?thesis using rest sh by (simp add: sumAmounts_def)
  next
    case False
    let ?t = "Mathb_min rem (lenderShareOf m l)"
    show ?thesis
    proof (cases "?t > 0")
      case True
      have "0 \<le> rem - ?t" by (simp add: Mathb_min_def)
      from Cons.IH [OF _ this] Cons.prems(1)
      have "sumAmounts (lenderLoop m b (rem - ?t) ls) = min (rem - ?t) (\<Sum>l\<leftarrow>ls. lenderShareOf m l)"
        by simp
      then have "sumAmounts (lenderLoop m b rem (l # ls)) = ?t + min (rem - ?t) (\<Sum>l\<leftarrow>ls. lenderShareOf m l)"
        using True False by (simp add: sumAmounts_def Let_def)
      then show ?thesis using rest sh by (auto simp: Mathb_min_def min_def)
    next
      case F: False
      then have z: "lenderShareOf m l = 0"
        using False sh Cons.prems(2) by (auto simp: Mathb_min_def split: if_splits)
      from Cons.IH [OF _ Cons.prems(2)] Cons.prems(1)
      have "sumAmounts (lenderLoop m b rem ls) = min rem (\<Sum>l\<leftarrow>ls. lenderShareOf m l)"
        by simp
      then show ?thesis using F False by (simp add: Let_def z)
    qed
  qed
qed


lemma min_sum_lower:
  fixes M S :: int
  assumes "\<forall>x \<in> set xs. x \<le> M" and "S \<le> M"
  shows "sum_list xs - int (length xs) * (M - S) \<le> (\<Sum>x\<leftarrow>xs. min x S)"
  using assms(1)
proof (induction xs)
  case (Cons x xs)
  have "x - (M - S) \<le> min x S" using Cons.prems assms(2) by simp
  moreover have "sum_list xs - int (length xs) * (M - S) \<le> (\<Sum>x\<leftarrow>xs. min x S)"
    using Cons by simp
  ultimately have "(x - (M - S)) + (sum_list xs - int (length xs) * (M - S))
      \<le> min x S + (\<Sum>x\<leftarrow>xs. min x S)"
    by (rule add_mono)
  then show ?case by (simp add: algebra_simps)
qed simp

lemma member_le_sum_list_int:
  fixes p :: int
  shows "p \<in> set ps \<Longrightarrow> \<forall>q \<in> set ps. 0 \<le> q \<Longrightarrow> p \<le> sum_list ps"
proof (induction ps)
  case (Cons q ps)
  have "0 \<le> sum_list ps" using Cons.prems(2) by (intro sum_list_nonneg) auto
  then show ?case using Cons by auto
qed simp

lemma min_sum_upper:
  fixes S :: int
  shows "(\<Sum>x\<leftarrow>xs. min x S) \<le> sum_list xs"
  by (induction xs) auto

lemma shares_bounds:
  fixes T M :: int
  assumes "0 \<le> T" and "0 \<le> M" and "M \<le> T" and "ps \<noteq> []" and "sum_list ps = T"
    and "\<forall>p \<in> set ps. 0 \<le> p"
  defines "sh \<equiv> (\<lambda>p. if T > 0 then bigint_div (p * M) T else 0)"
  shows "(\<Sum>p\<leftarrow>ps. sh p) \<le> M"
    and "M - (\<Sum>p\<leftarrow>ps. sh p) \<le> int (length ps) - 1"
    and "\<forall>p \<in> set ps. 0 \<le> sh p \<and> sh p \<le> M"
proof -
  have len: "1 \<le> int (length ps)" using assms(4) by (cases ps) auto
  show 3: "\<forall>p \<in> set ps. 0 \<le> sh p \<and> sh p \<le> M"
  proof
    fix p assume p: "p \<in> set ps"
    then have p0: "0 \<le> p" using assms(6) by simp
    have pT: "p \<le> T" using member_le_sum_list_int [OF p assms(6)] assms(5) by simp
    show "0 \<le> sh p \<and> sh p \<le> M"
    proof (cases "0 < T")
      case True
      have "sh p = (p * M) div T"
        using True p0 assms(2) by (simp add: sh_def bigint_div_nonneg)
      moreover have "(p * M) div T \<le> (T * M) div T"
        using True pT assms(2) by (intro zdiv_mono1) (auto intro: mult_right_mono)
      moreover have "0 \<le> (p * M) div T"
        using True p0 assms(2) by (simp add: pos_imp_zdiv_nonneg_iff)
      ultimately show ?thesis using True by simp
    next
      case False
      then show ?thesis using assms(2) by (simp add: sh_def)
    qed
  qed
  show "(\<Sum>p\<leftarrow>ps. sh p) \<le> M" and "M - (\<Sum>p\<leftarrow>ps. sh p) \<le> int (length ps) - 1"
  proof -
    have "(\<Sum>p\<leftarrow>ps. sh p) \<le> M \<and> M - (\<Sum>p\<leftarrow>ps. sh p) \<le> int (length ps) - 1"
    proof (cases "0 < T")
      case True
      have e: "map sh ps = map (\<lambda>p. (p * M) div T) ps"
        using True assms(2,6) by (intro map_cong) (auto simp: sh_def bigint_div_nonneg)
      have u: "T * (\<Sum>p\<leftarrow>ps. sh p) \<le> M * T"
        using shares_upper [OF True, where ps = ps and M = M] by (simp add: e assms(5))
      have "M * T - T * (\<Sum>p\<leftarrow>ps. sh p) \<le> int (length ps) * (T - 1)"
        using shares_lower [OF True, where ps = ps and M = M] by (simp add: e assms(5))
      also have "\<dots> < int (length ps) * T" using assms(4) by (simp add: algebra_simps)
      finally have "T * (M - (\<Sum>p\<leftarrow>ps. sh p)) < T * int (length ps)"
        by (simp add: algebra_simps)
      then have "M - (\<Sum>p\<leftarrow>ps. sh p) < int (length ps)"
        using True by (simp add: mult_less_cancel_left_pos)
      moreover have "(\<Sum>p\<leftarrow>ps. sh p) \<le> M"
        using u True by (simp add: mult.commute)
      ultimately show ?thesis by simp
    next
      case False
      then have "M = 0" using assms(1,2,3) by simp
      moreover have "(\<Sum>p\<leftarrow>ps. sh p) = 0" using False by (simp add: sh_def)
      ultimately show ?thesis using assms(4) by simp
    qed
    then show "(\<Sum>p\<leftarrow>ps. sh p) \<le> M" and "M - (\<Sum>p\<leftarrow>ps. sh p) \<le> int (length ps) - 1"
      by simp_all
  qed
qed


lemma lenderTotal_bounds:
  assumes "\<forall>t \<in> set g. 0 \<le> principalAmount t"
  shows "0 \<le> lenderTotal g" and "0 \<le> borrowerTotal g"
  using assms by (simp_all add: lenderTotal_nonneg borrowerTotal_nonneg list_all_iff)

lemma groupTransfers_bounds:
  fixes m :: LoanMatching
  defines "ls \<equiv> filter isLender (loanTasks m)"
    and "bs \<equiv> filter (\<lambda>t. \<not> isLender t) (loanTasks m)"
  assumes matched: "isMatched m"
    and nn: "\<forall>t \<in> set (loanTasks m). 0 \<le> principalAmount t"
    and TL: "groupTotalLenderAmount m = lenderTotal (loanTasks m)"
    and TB: "groupTotalBorrowerAmount m = borrowerTotal (loanTasks m)"
    and M: "matchedAmount m = Mathb_min (lenderTotal (loanTasks m)) (borrowerTotal (loanTasks m))"
    and ne: "ls \<noteq> []" "bs \<noteq> []"
  shows "sumAmounts (groupTransfers m) \<le> matchedAmount m"
    and "matchedAmount m - sumAmounts (groupTransfers m) < groupPairings m"
proof -
  let ?M = "matchedAmount m"
  let ?TL = "groupTotalLenderAmount m" and ?TB = "groupTotalBorrowerAmount m"
  note tot = lenderTotal_bounds [OF nn]
  have M0: "0 \<le> ?M" and MltL: "?M \<le> ?TL" and MltB: "?M \<le> ?TB"
    using tot by (simp_all add: M TL TB Mathb_min_def)
  have lsh: "lenderShareOf m = (\<lambda>l. if ?TL > 0 then bigint_div (principalAmount l * ?M) ?TL else 0)"
    by (intro ext) (simp add: lenderShareOf_def)
  have bsh: "borrowerShareOf m = (\<lambda>b. if ?TB > 0 then bigint_div (principalAmount b * ?M) ?TB else 0)"
    by (intro ext) (simp add: borrowerShareOf_def)
  let ?SL = "\<Sum>l\<leftarrow>ls. lenderShareOf m l"
  let ?SB = "\<Sum>b\<leftarrow>bs. borrowerShareOf m b"
  have L: "?SL \<le> ?M" "?M - ?SL \<le> int (length ls) - 1" "\<forall>l \<in> set ls. 0 \<le> lenderShareOf m l"
    using shares_bounds [of ?TL ?M "map principalAmount ls"] tot(1) M0 MltL ne(1) nn
    by (simp_all add: lsh TL lenderTotal_def ls_def comp_def)
  have B: "?SB \<le> ?M" "?M - ?SB \<le> int (length bs) - 1"
    "\<forall>b \<in> set bs. 0 \<le> borrowerShareOf m b \<and> borrowerShareOf m b \<le> ?M"
    using shares_bounds [of ?TB ?M "map principalAmount bs"] tot(2) M0 MltB ne(2) nn
    by (simp_all add: bsh TB borrowerTotal_def bs_def comp_def)
  have "groupTransfers m = concat (map (\<lambda>b. lenderLoop m b (borrowerShareOf m b) ls) bs)"
    using matched by (auto simp: groupTransfers_def isMatched_def Let_def ls_def bs_def)
  then have "sumAmounts (groupTransfers m) = (\<Sum>b\<leftarrow>bs. sumAmounts (lenderLoop m b (borrowerShareOf m b) ls))"
    by (simp add: sumAmounts_concat comp_def)
  also have "\<dots> = (\<Sum>b\<leftarrow>bs. min (borrowerShareOf m b) ?SL)"
    using L(3) B(3) by (intro arg_cong [where f = sum_list] map_cong refl sumAmounts_lenderLoop) auto
  finally have s: "sumAmounts (groupTransfers m) = (\<Sum>x\<leftarrow>map (borrowerShareOf m) bs. min x ?SL)"
    by (simp add: comp_def)
  have up: "sumAmounts (groupTransfers m) \<le> ?SB"
    unfolding s by (rule min_sum_upper)
  then show "sumAmounts (groupTransfers m) \<le> ?M" using B(1) by simp
  have "?SB - int (length bs) * (?M - ?SL) \<le> sumAmounts (groupTransfers m)"
    unfolding s using min_sum_lower [of "map (borrowerShareOf m) bs" ?M ?SL] B(3) L(1)
    by simp
  moreover have "int (length bs) * (?M - ?SL) \<le> int (length bs) * (int (length ls) - 1)"
    using L(2) by (intro mult_left_mono) auto
  ultimately have "?M - sumAmounts (groupTransfers m)
      \<le> (int (length bs) - 1) + int (length bs) * (int (length ls) - 1)"
    using B(2) by linarith
  also have "\<dots> < int (length ls) * int (length bs)"
    by (simp add: algebra_simps)
  finally show "?M - sumAmounts (groupTransfers m) < groupPairings m"
    using matched by (simp add: groupPairings_def ls_def bs_def)
qed


lemma group_dust:
  assumes nn: "\<forall>t \<in> set g. 0 \<le> principalAmount t"
  defines "m \<equiv> groupMatching g"
  shows "sumAmounts (groupTransfers m) \<le> matchedAmount m"
    and "matchedAmount m - sumAmounts (groupTransfers m) \<le> groupPairings m"
    and "0 < matchedAmount m \<Longrightarrow> matchedAmount m - sumAmounts (groupTransfers m) < groupPairings m"
    and "0 \<le> matchedAmount m"
proof -
  have "sumAmounts (groupTransfers m) \<le> matchedAmount m \<and>
        matchedAmount m - sumAmounts (groupTransfers m) \<le> groupPairings m \<and>
        (0 < matchedAmount m \<longrightarrow> matchedAmount m - sumAmounts (groupTransfers m) < groupPairings m) \<and>
        0 \<le> matchedAmount m"
  proof (cases "isMatched m")
    case True
    then have g: "length g \<noteq> 1" "\<not> failsChecks g"
      by (simp_all add: m_def isMatched_groupMatching)
    have lt: "loanTasks m = g" by (simp add: m_def loanTasks_groupMatching)
    from g have "set (findCommonMaturities (filter isLender g) (filter (\<lambda>t. \<not> isLender t) g)) \<noteq> {}"
      by (simp add: failsChecks_def)
    then have ne: "filter isLender (loanTasks m) \<noteq> []" "filter (\<lambda>t. \<not> isLender t) (loanTasks m) \<noteq> []"
      unfolding set_findCommonMaturities lt by (auto simp: filter_empty_conv)
    have b: "sumAmounts (groupTransfers m) \<le> matchedAmount m"
      "matchedAmount m - sumAmounts (groupTransfers m) < groupPairings m"
      using nn ne
      by (intro groupTransfers_bounds True; simp add: lt; simp add: m_def group_side_totals groupTotals_matched(7) [OF g])+
    moreover have "0 \<le> matchedAmount m"
      using group_matched_bounds(1) [of g] nn by (simp add: m_def list_all_iff)
    ultimately show ?thesis by simp
  next
    case False
    then have f: "feasibility m = NONE \<or> feasibility m = NO_RATE_OVERLAP \<or> feasibility m = MATURITY_MISMATCH"
      unfolding m_def
      using groupTotals_single(7) [of g] groupTotals_fails(7) [of g] groupTotals_matched(6) [of g]
      by blast
    have z: "matchedAmount m = 0"
      using False groupTotals_single(8) [of g] groupTotals_fails(8) [of g]
      unfolding m_def isMatched_groupMatching by blast
    have "groupTransfers m = []" using f by (auto simp: groupTransfers_def)
    then show ?thesis using False by (simp add: z groupPairings_def sumAmounts_def)
  qed
  then show "sumAmounts (groupTransfers m) \<le> matchedAmount m"
    and "matchedAmount m - sumAmounts (groupTransfers m) \<le> groupPairings m"
    and "0 < matchedAmount m \<Longrightarrow> matchedAmount m - sumAmounts (groupTransfers m) < groupPairings m"
    and "0 \<le> matchedAmount m"
    by simp_all
qed

lemma groups_dust:
  assumes "\<forall>g \<in> set c. \<forall>t \<in> set g. 0 \<le> principalAmount t"
  defines "S \<equiv> (\<Sum>g\<leftarrow>c. sumAmounts (groupTransfers (groupMatching g)))"
    and "M \<equiv> (\<Sum>g\<leftarrow>c. matchedAmount (groupMatching g))"
    and "P \<equiv> (\<Sum>g\<leftarrow>c. groupPairings (groupMatching g))"
  shows "S \<le> M \<and> M - S \<le> P \<and> (0 < M \<longrightarrow> M - S < P)"
  using assms(1) unfolding S_def M_def P_def
proof (induction c)
  case Nil
  then show ?case by simp
next
  case (Cons g c)
  have nn: "\<forall>t \<in> set g. 0 \<le> principalAmount t" using Cons.prems by simp
  note d = group_dust [OF nn]
  have ih: "(\<Sum>g\<leftarrow>c. sumAmounts (groupTransfers (groupMatching g))) \<le> (\<Sum>g\<leftarrow>c. matchedAmount (groupMatching g))"
    "(\<Sum>g\<leftarrow>c. matchedAmount (groupMatching g)) - (\<Sum>g\<leftarrow>c. sumAmounts (groupTransfers (groupMatching g)))
       \<le> (\<Sum>g\<leftarrow>c. groupPairings (groupMatching g))"
    "0 < (\<Sum>g\<leftarrow>c. matchedAmount (groupMatching g)) \<Longrightarrow>
     (\<Sum>g\<leftarrow>c. matchedAmount (groupMatching g)) - (\<Sum>g\<leftarrow>c. sumAmounts (groupTransfers (groupMatching g)))
       < (\<Sum>g\<leftarrow>c. groupPairings (groupMatching g))"
    using Cons.IH Cons.prems by simp_all
  show ?case
  proof (cases "0 < matchedAmount (groupMatching g)")
    case True
    then show ?thesis using d(1) d(3) ih(1,2) by simp
  next
    case False
    then have "matchedAmount (groupMatching g) = 0" using d(4) by simp
    then show ?thesis using d(1,2) ih by auto
  qed
qed

text \<open>
  C3: for every feasible result of the evaluator on a partition with no negative
  principal, the amounts of the transfers sum to at most the total matched amount, and
  fall short of it by strictly less than the number of lender-borrower pairings of the
  matched groups.
\<close>

theorem C3_transfers_sum_within_dust:
  assumes "nonnegPrincipals combination"
    and "feasible (computeLoanMatchingResult combination)"
  shows "sumAmounts (computeLoanTransfers (computeLoanMatchingResult combination))
           \<le> totalMatchedAmount (computeLoanMatchingResult combination) \<and>
         totalMatchedAmount (computeLoanMatchingResult combination)
           - sumAmounts (computeLoanTransfers (computeLoanMatchingResult combination))
           < pairings (computeLoanMatchingResult combination)"
proof -
  have nn: "\<forall>g \<in> set combination. \<forall>t \<in> set g. 0 \<le> principalAmount t"
    using assms(1) by (simp add: nonnegPrincipals_def list_all_iff)
  have s: "sumAmounts (computeLoanTransfers (computeLoanMatchingResult combination))
      = (\<Sum>g\<leftarrow>combination. sumAmounts (groupTransfers (groupMatching g)))"
    by (simp add: computeLoanTransfers_def matchings_result sumAmounts_concat comp_def)
  have m: "totalMatchedAmount (computeLoanMatchingResult combination)
      = (\<Sum>g\<leftarrow>combination. matchedAmount (groupMatching g))"
    by (simp add: result_fields(4) matched_total_is_group_matched)
  have p: "pairings (computeLoanMatchingResult combination)
      = (\<Sum>g\<leftarrow>combination. groupPairings (groupMatching g))"
    by (simp add: pairings_def matchings_result comp_def)
  have "0 < totalMatchedAmount (computeLoanMatchingResult combination)"
    using assms(2) by (simp add: result_fields(7))
  then show ?thesis
    using groups_dust [OF nn] unfolding s m p by simp
qed

text \<open>
  C3 at three lenders of 10 and a borrower of 20: 20 is matched, each lender's share is
  floor(10 * 20 / 30) = 6, the transfers sum to 18, and 2 is less than the 3 pairings.
\<close>

theorem C3_witness:
  "nonnegPrincipals [[lenderOrder 1 ''L1'' 10 500 1000, lenderOrder 2 ''L2'' 10 500 1000,
                      lenderOrder 3 ''L3'' 10 500 1000, borrowerOrder 4 ''B4'' 20 600 1000]] \<and>
   feasible (computeLoanMatchingResult
     [[lenderOrder 1 ''L1'' 10 500 1000, lenderOrder 2 ''L2'' 10 500 1000,
       lenderOrder 3 ''L3'' 10 500 1000, borrowerOrder 4 ''B4'' 20 600 1000]]) \<and>
   totalMatchedAmount (computeLoanMatchingResult
     [[lenderOrder 1 ''L1'' 10 500 1000, lenderOrder 2 ''L2'' 10 500 1000,
       lenderOrder 3 ''L3'' 10 500 1000, borrowerOrder 4 ''B4'' 20 600 1000]]) = 20 \<and>
   sumAmounts (computeLoanTransfers (computeLoanMatchingResult
     [[lenderOrder 1 ''L1'' 10 500 1000, lenderOrder 2 ''L2'' 10 500 1000,
       lenderOrder 3 ''L3'' 10 500 1000, borrowerOrder 4 ''B4'' 20 600 1000]])) = 18 \<and>
   pairings (computeLoanMatchingResult
     [[lenderOrder 1 ''L1'' 10 500 1000, lenderOrder 2 ''L2'' 10 500 1000,
       lenderOrder 3 ''L3'' 10 500 1000, borrowerOrder 4 ''B4'' 20 600 1000]]) = 3"
  using C3_transfers_sum_within_dust
    [of "[[lenderOrder 1 ''L1'' 10 500 1000, lenderOrder 2 ''L2'' 10 500 1000,
           lenderOrder 3 ''L3'' 10 500 1000, borrowerOrder 4 ''B4'' 20 600 1000]]"]
  by (simp add: example_defs evaluator_defs transfer_defs nonnegPrincipals_def sumAmounts_def
        pairings_def groupPairings_def isMatched_def)

text \<open>
  C2 (the code at a failing input): in a group of two lenders of 100 and two borrowers of
  100 the share of lender \<open>L1\<close> is 100, and the transfers draw 200 from \<open>L1\<close>: the
  lender's share is computed anew for every borrower and no remainder is kept.
\<close>

theorem C2_lender_drawn_beyond_share:
  "map (\<lambda>t. (lender t, borrower t, amount t)) (computeLoanTransfers (computeLoanMatchingResult
     [[lenderOrder 1 ''L1'' 100 500 1000, lenderOrder 2 ''L2'' 100 500 1000,
       borrowerOrder 3 ''B3'' 100 600 1000, borrowerOrder 4 ''B4'' 100 600 1000]]))
     = [(''L1'', ''B3'', 100), (''L1'', ''B4'', 100)] \<and>
   drawnFrom ''L1'' (computeLoanTransfers (computeLoanMatchingResult
     [[lenderOrder 1 ''L1'' 100 500 1000, lenderOrder 2 ''L2'' 100 500 1000,
       borrowerOrder 3 ''B3'' 100 600 1000, borrowerOrder 4 ''B4'' 100 600 1000]])) = 200 \<and>
   map (\<lambda>m. lenderShareOf m (lenderOrder 1 ''L1'' 100 500 1000)) (matchings (computeLoanMatchingResult
     [[lenderOrder 1 ''L1'' 100 500 1000, lenderOrder 2 ''L2'' 100 500 1000,
       borrowerOrder 3 ''B3'' 100 600 1000, borrowerOrder 4 ''B4'' 100 600 1000]])) = [100]"
  by (simp add: example_defs evaluator_defs transfer_defs drawnFrom_def sumAmounts_def)

section \<open>The selector's comparator\<close>

lemma selectStep_feasible:
  "feasible r \<Longrightarrow> selectStep (Some b) r = Some (if strictlyBetter r b then r else b)"
  "feasible r \<Longrightarrow> selectStep None r = Some r"
  by (auto simp: selectStep_def strictlyBetter_def)

lemma strictlyBetter_irrefl: "\<not> strictlyBetter r r"
  by (simp add: strictlyBetter_def)

lemma strictlyBetter_trans: "strictlyBetter a b \<Longrightarrow> strictlyBetter b c \<Longrightarrow> strictlyBetter a c"
  unfolding strictlyBetter_def by linarith

lemma strictlyBetter_above: "\<not> strictlyBetter x b \<Longrightarrow> strictlyBetter r b \<Longrightarrow> strictlyBetter r x"
  unfolding strictlyBetter_def by linarith

lemma leads_snoc_keep:
  assumes "leads rs i" and "feasible r \<Longrightarrow> \<not> strictlyBetter r (rs ! i)"
  shows "leads (rs @ [r]) i"
  unfolding leads_def
proof (intro conjI allI impI)
  have i: "i < length rs" using assms(1) by (simp add: leads_def)
  then show "i < length (rs @ [r])" by simp
  show "feasible ((rs @ [r]) ! i)" using assms(1) i by (simp add: leads_def nth_append)
  fix j
  { assume j: "j < length (rs @ [r])" "feasible ((rs @ [r]) ! j)"
    show "\<not> strictlyBetter ((rs @ [r]) ! j) ((rs @ [r]) ! i)"
    proof (cases "j < length rs")
      case True
      then show ?thesis using assms(1) i j by (simp add: leads_def nth_append)
    next
      case False
      then have "j = length rs" using j(1) by simp
      then show ?thesis using assms(2) i j(2) by (simp add: nth_append)
    qed }
  { assume j: "j < i" "feasible ((rs @ [r]) ! j)"
    then show "strictlyBetter ((rs @ [r]) ! i) ((rs @ [r]) ! j)"
      using assms(1) i by (simp add: leads_def nth_append) }
qed

lemma leads_snoc_new:
  assumes "feasible r"
    and "\<forall>j < length rs. feasible (rs ! j) \<longrightarrow> strictlyBetter r (rs ! j)"
  shows "leads (rs @ [r]) (length rs)"
  unfolding leads_def
proof (intro conjI allI impI)
  show "length rs < length (rs @ [r])" by simp
  show "feasible ((rs @ [r]) ! length rs)" using assms(1) by simp
  fix j
  { assume j: "j < length (rs @ [r])" "feasible ((rs @ [r]) ! j)"
    show "\<not> strictlyBetter ((rs @ [r]) ! j) ((rs @ [r]) ! length rs)"
    proof (cases "j < length rs")
      case True
      then have "strictlyBetter r (rs ! j)" using assms(2) j(2) by (simp add: nth_append)
      then have "\<not> strictlyBetter (rs ! j) r"
        using strictlyBetter_trans strictlyBetter_irrefl by blast
      then show ?thesis using True by (simp add: nth_append)
    next
      case False
      then have "j = length rs" using j(1) by simp
      then show ?thesis by (simp add: strictlyBetter_irrefl)
    qed }
  { assume j: "j < length rs" "feasible ((rs @ [r]) ! j)"
    then show "strictlyBetter ((rs @ [r]) ! length rs) ((rs @ [r]) ! j)"
      using assms(2) by (simp add: nth_append) }
qed


lemma foldl_selectStep_leads:
  "case foldl selectStep None rs of
     None \<Rightarrow> \<forall>r \<in> set rs. \<not> feasible r
   | Some w \<Rightarrow> \<exists>i. leads rs i \<and> rs ! i = w"
proof (induction rs rule: rev_induct)
  case Nil
  then show ?case by simp
next
  case (snoc r rs)
  show ?case
  proof (cases "foldl selectStep None rs")
    case None
    then have inf: "\<forall>x \<in> set rs. \<not> feasible x" using snoc by simp
    show ?thesis
    proof (cases "feasible r")
      case True
      have "leads (rs @ [r]) (length rs)"
        using True inf by (intro leads_snoc_new) simp_all
      moreover have "foldl selectStep None (rs @ [r]) = Some r"
        using None True by (simp add: selectStep_feasible)
      ultimately show ?thesis by auto
    next
      case False
      then have "foldl selectStep None (rs @ [r]) = None"
        using None by (simp add: selectStep_infeasible)
      then show ?thesis using inf False by simp
    qed
  next
    case (Some b)
    then obtain i where i: "leads rs i" "rs ! i = b" using snoc by auto
    have il: "i < length rs" using i(1) by (simp add: leads_def)
    show ?thesis
    proof (cases "feasible r \<and> strictlyBetter r b")
      case True
      have "\<forall>j < length rs. feasible (rs ! j) \<longrightarrow> strictlyBetter r (rs ! j)"
      proof (intro allI impI)
        fix j assume "j < length rs" "feasible (rs ! j)"
        then have "\<not> strictlyBetter (rs ! j) b" using i by (simp add: leads_def)
        then show "strictlyBetter r (rs ! j)" using True strictlyBetter_above by blast
      qed
      then have "leads (rs @ [r]) (length rs)"
        using True by (intro leads_snoc_new) simp_all
      moreover have "foldl selectStep None (rs @ [r]) = Some r"
        using Some True by (simp add: selectStep_feasible)
      ultimately show ?thesis by auto
    next
      case False
      have "leads (rs @ [r]) i"
        using False i by (intro leads_snoc_keep) auto
      moreover have "(rs @ [r]) ! i = b" using i(2) il by (simp add: nth_append)
      moreover have "foldl selectStep None (rs @ [r]) = Some b"
        using Some False by (cases "feasible r") (simp_all add: selectStep_feasible selectStep_infeasible)
      ultimately show ?thesis by auto
    qed
  qed
qed

text \<open>
  C6: on a non-empty list of candidates that the evaluator can produce (\<open>evaluated\<close>),
  the selector returns a candidate of the list than which no candidate is strictly better
  in the order: more matched amount, then more matching efficiency, then lower average
  rate; and every candidate before it in the list is strictly worse, so that among equal
  best candidates the first seen is returned. These conditions fix the position of the
  winner, hence the winner is a function of the list.
\<close>

theorem C6_selector_picks_first_best:
  assumes "possibleResults \<noteq> []"
    and "\<forall>r \<in> set possibleResults. evaluated r"
  shows "\<exists>i < length possibleResults.
           computeBestLoanResult possibleResults = Inr (Some (possibleResults ! i)) \<and>
           (\<forall>j < length possibleResults.
              \<not> strictlyBetter (possibleResults ! j) (possibleResults ! i)) \<and>
           (\<forall>j < i. strictlyBetter (possibleResults ! i) (possibleResults ! j))"
proof (cases "foldl selectStep None possibleResults")
  case None
  then have inf: "\<forall>r \<in> set possibleResults. \<not> feasible r"
    using foldl_selectStep_leads [of possibleResults] by simp
  have z: "\<not> strictlyBetter (possibleResults ! j) (possibleResults ! 0)"
    if "j < length possibleResults" for j
  proof -
    have "possibleResults ! j \<in> set possibleResults" "possibleResults ! 0 \<in> set possibleResults"
      using that assms(1) by simp_all
    then have "evaluated (possibleResults ! j)" "\<not> feasible (possibleResults ! j)"
      "evaluated (possibleResults ! 0)" "\<not> feasible (possibleResults ! 0)"
      using assms(2) inf by blast+
    then show ?thesis by (simp add: evaluated_def strictlyBetter_def)
  qed
  have "computeBestLoanResult possibleResults = Inr (Some (possibleResults ! 0))"
    using None assms(1) by (cases possibleResults) (simp_all add: computeBestLoanResult_def del: foldl_Cons)
  then show ?thesis using z assms(1) by (intro exI [of _ 0]) simp
next
  case (Some w)
  then obtain i where i: "leads possibleResults i" "possibleResults ! i = w"
    using foldl_selectStep_leads [of possibleResults] by auto
  have il: "i < length possibleResults" and fw: "feasible (possibleResults ! i)"
    using i(1) by (simp_all add: leads_def)
  have ew: "0 < totalMatchedAmount (possibleResults ! i)"
    using assms(2) il fw nth_mem [OF il] by (auto simp: evaluated_def)
  have low: "totalMatchedAmount (possibleResults ! j) = 0"
    if "j < length possibleResults" "\<not> feasible (possibleResults ! j)" for j
    using assms(2) nth_mem [OF that(1)] that(2) by (auto simp: evaluated_def)
  have a: "\<not> strictlyBetter (possibleResults ! j) (possibleResults ! i)"
    if "j < length possibleResults" for j
  proof (cases "feasible (possibleResults ! j)")
    case True
    then show ?thesis using i(1) that by (simp add: leads_def)
  next
    case False
    then show ?thesis using low [OF that False] ew by (simp add: strictlyBetter_def)
  qed
  have b: "strictlyBetter (possibleResults ! i) (possibleResults ! j)" if "j < i" for j
  proof (cases "feasible (possibleResults ! j)")
    case True
    then show ?thesis using i(1) that by (simp add: leads_def)
  next
    case False
    have "j < length possibleResults" using that il by simp
    then show ?thesis using low [OF _ False] ew by (simp add: strictlyBetter_def)
  qed
  have "computeBestLoanResult possibleResults = Inr (Some (possibleResults ! i))"
    using Some i(2) by (simp add: computeBestLoanResult_def)
  then show ?thesis using a b il by blast
qed


lemma evaluated_result:
  assumes "nonnegPrincipals c"
  shows "evaluated (computeLoanMatchingResult c)"
proof (cases "feasible (computeLoanMatchingResult c)")
  case True
  then show ?thesis by (simp add: evaluated_def result_fields(7))
next
  case False
  then have z: "totalMatchedAmount (computeLoanMatchingResult c) = 0"
    using totals_bounds(1) [OF assms] by (simp add: result_fields(7))
  then have a: "accTotalMatchedAmount (foldl processGroup initialTotals c) = 0"
    by (simp add: computeLoanMatchingResult_def Let_def)
  have "matchingEfficiency (computeLoanMatchingResult c) = 0"
    "averageBorrowerRate (computeLoanMatchingResult c) = 0"
    by (simp_all add: computeLoanMatchingResult_def Let_def a divideFloor4_def)
  then show ?thesis using False z by (simp add: evaluated_def)
qed

text \<open>
  C6 at three candidates for one lender and one borrower of 100: both left alone (nothing
  matched), both in one group, and the same group in the other order; the last two tie on
  all three criteria, and the first of them is returned.
\<close>

theorem C6_witness:
  "computeBestLoanResult
     [computeLoanMatchingResult
        [[lenderOrder 1 ''L1'' 100 500 1000], [borrowerOrder 2 ''B2'' 100 600 1000]],
      computeLoanMatchingResult
        [[lenderOrder 1 ''L1'' 100 500 1000, borrowerOrder 2 ''B2'' 100 600 1000]],
      computeLoanMatchingResult
        [[borrowerOrder 2 ''B2'' 100 600 1000, lenderOrder 1 ''L1'' 100 500 1000]]]
   = Inr (Some (computeLoanMatchingResult
        [[lenderOrder 1 ''L1'' 100 500 1000, borrowerOrder 2 ''B2'' 100 600 1000]]))"
proof -
  define r0 where "r0 = computeLoanMatchingResult
        [[lenderOrder 1 ''L1'' 100 500 1000], [borrowerOrder 2 ''B2'' 100 600 1000]]"
  define r1 where "r1 = computeLoanMatchingResult
        [[lenderOrder 1 ''L1'' 100 500 1000, borrowerOrder 2 ''B2'' 100 600 1000]]"
  define r2 where "r2 = computeLoanMatchingResult
        [[borrowerOrder 2 ''B2'' 100 600 1000, lenderOrder 1 ''L1'' 100 500 1000]]"
  have e: "\<forall>r \<in> set [r0, r1, r2]. evaluated r"
    unfolding r0_def r1_def r2_def
    by (simp add: evaluated_result nonnegPrincipals_def example_defs)
  have k0: "totalMatchedAmount r0 = 0"
    unfolding r0_def by (simp add: example_defs evaluator_defs)
  have k1: "totalMatchedAmount r1 = 100" "matchingEfficiency r1 = 10000" "averageBorrowerRate r1 = 5500000"
    unfolding r1_def by (simp_all add: example_defs evaluator_defs)
  have k2: "totalMatchedAmount r2 = 100" "matchingEfficiency r2 = 10000" "averageBorrowerRate r2 = 5500000"
    unfolding r2_def by (simp_all add: example_defs evaluator_defs)
  have s10: "strictlyBetter r1 r0" and n21: "\<not> strictlyBetter r2 r1"
    by (simp_all add: strictlyBetter_def k0 k1 k2)
  define rs where "rs = [r0, r1, r2]"
  have n: "length rs = 3" "rs ! 0 = r0" "rs ! 1 = r1" "rs ! 2 = r2"
    by (simp_all add: rs_def)
  have "rs \<noteq> []" and "\<forall>r \<in> set rs. evaluated r"
    using e by (simp_all add: rs_def)
  from C6_selector_picks_first_best [OF this]
  obtain i where i: "i < length rs" "computeBestLoanResult rs = Inr (Some (rs ! i))"
    "\<forall>j < length rs. \<not> strictlyBetter (rs ! j) (rs ! i)"
    "\<forall>j < i. strictlyBetter (rs ! i) (rs ! j)"
    by blast
  have "i \<noteq> 0"
  proof
    assume "i = 0"
    then have "\<not> strictlyBetter (rs ! 1) (rs ! 0)" using i(3) n(1) by simp
    then show False using s10 n by simp
  qed
  moreover have "i \<noteq> 2"
  proof
    assume "i = 2"
    then have "strictlyBetter (rs ! 2) (rs ! 1)" using i(4) by simp
    then show False using n21 n by simp
  qed
  ultimately have "i = 1" using i(1) n(1) by simp
  then have "computeBestLoanResult [r0, r1, r2] = Inr (Some r1)"
    using i(2) n(3) by (simp add: rs_def)
  then show ?thesis unfolding r0_def r1_def r2_def by simp
qed

section \<open>The partition generator\<close>

lemma combineFirst_update:
  "combineFirst f sc = map (\<lambda>i. sc[i := f # sc ! i]) [0..<length sc]"
proof (cases sc)
  case Nil
  then show ?thesis by simp
next
  case (Cons g gs)
  have u: "take i sc @ [f # sc ! i] @ drop (i + 1) sc = sc[i := f # sc ! i]" if "i < length sc" for i
    using that by (simp add: upd_conv_take_nth_drop)
  have "map (\<lambda>i. take i sc @ [f # sc ! i] @ drop (i + 1) sc) [1..<length sc]
      = map (\<lambda>i. sc[i := f # sc ! i]) [1..<length sc]"
    by (rule map_cong [OF refl]) (use u in auto)
  moreover have "[0..<length sc] = 0 # [1..<length sc]"
    using Cons by (subst upt_rec) simp
  ultimately show ?thesis using Cons by simp
qed

lemma filterUnique_distinct:
  "distinct (map combinationKey xs) \<Longrightarrow>
   filterUnique seen xs = filter (\<lambda>x. combinationKey x \<notin> set seen) xs"
proof (induction xs arbitrary: seen)
  case (Cons x xs)
  have "filter (\<lambda>y. combinationKey y \<notin> set (combinationKey x # seen)) xs
      = filter (\<lambda>y. combinationKey y \<notin> set seen) xs"
  proof (intro filter_cong refl)
    fix y assume "y \<in> set xs"
    then have "combinationKey y \<in> combinationKey ` set xs" by (rule imageI)
    moreover have "combinationKey x \<notin> combinationKey ` set xs" using Cons.prems by simp
    ultimately have "combinationKey y \<noteq> combinationKey x" by metis
    then show "(combinationKey y \<notin> set (combinationKey x # seen)) = (combinationKey y \<notin> set seen)"
      by simp
  qed
  then show ?case using Cons by (simp add: Let_def)
qed simp

lemma mset_removeDuplicates:
  assumes "distinct (map combinationKey R)" and "d \<in> set R"
  shows "mset (removeDuplicates (d # R)) = mset R"
proof -
  have inj: "inj_on combinationKey (set R)" and dR: "distinct R"
    using assms(1) by (simp_all add: distinct_map)
  have "removeDuplicates (d # R) = d # filter (\<lambda>x. combinationKey x \<noteq> combinationKey d) R"
    using assms(1) by (simp add: removeDuplicates_def Let_def filterUnique_distinct)
  moreover have "filter (\<lambda>x. combinationKey x \<noteq> combinationKey d) R = filter (\<lambda>x. x \<noteq> d) R"
    using inj assms(2) by (intro filter_cong refl) (auto dest: inj_onD)
  moreover have "filter (\<lambda>x. x \<noteq> d) R = remove1 d R"
    using dR by (simp add: distinct_remove1_removeAll removeAll_filter_not_eq) metis
  moreover have "mset (d # remove1 d R) = mset R"
    using assms(2) by simp
  ultimately show ?thesis by simp
qed


lemma mset_raw_grouped:
  "mset (map (\<lambda>sc. [f] # sc) sub @ concat (map (combineFirst f) sub)) = mset (grouped f sub)"
  by (induction sub) (simp_all add: grouped_def)

lemma set_grouped:
  "p \<in> set (grouped f sub) \<longleftrightarrow> (\<exists>sc \<in> set sub. p = [f] # sc \<or> p \<in> set (combineFirst f sc))"
  by (auto simp: grouped_def)

lemma length_combineFirst: "length (combineFirst f sc) = length sc"
  by (simp add: combineFirst_update)

lemma combineFirst_lengths: "p \<in> set (combineFirst f sc) \<Longrightarrow> length p = length sc"
  by (auto simp: combineFirst_update)

lemma count_grouped:
  "length (filter (\<lambda>p. length p = k) (grouped f sub))
     = length (filter (\<lambda>sc. Suc (length sc) = k) sub) + k * length (filter (\<lambda>sc. length sc = k) sub)"
proof (induction sub)
  case Nil
  then show ?case by (simp add: grouped_def)
next
  case (Cons sc sub)
  have c: "filter (\<lambda>p. length p = k) (combineFirst f sc) = (if length sc = k then combineFirst f sc else [])"
    by (auto simp: filter_empty_conv combineFirst_lengths filter_id_conv)
  have "grouped f (sc # sub) = ([f] # sc) # combineFirst f sc @ grouped f sub"
    by (simp add: grouped_def)
  then show ?case using Cons by (simp add: c length_combineFirst)
qed

lemma nth_subset_concat: "i < length xs \<Longrightarrow> set (xs ! i) \<subseteq> set (concat xs)"
  by (metis nth_mem set_concat UN_upper)

lemma valid_groups:
  assumes "validPartition ts sc" and "i < length sc"
  shows "sc ! i \<noteq> []" and "set (sc ! i) \<subseteq> set ts"
proof -
  have "sc ! i \<in> set sc" using assms(2) by simp
  then show "sc ! i \<noteq> []" using assms(1) by (auto simp: validPartition_def)
  show "set (sc ! i) \<subseteq> set ts"
    using nth_subset_concat [OF assms(2)] assms(1) by (simp add: validPartition_def)
qed

lemma concat_update:
  assumes "i < length sc"
  shows "concat (sc[i := x # sc ! i]) = concat (take i sc) @ x # sc ! i @ concat (drop (Suc i) sc)"
    and "concat sc = concat (take i sc) @ sc ! i @ concat (drop (Suc i) sc)"
proof -
  show "concat (sc[i := x # sc ! i]) = concat (take i sc) @ x # sc ! i @ concat (drop (Suc i) sc)"
    using assms by (simp add: upd_conv_take_nth_drop)
  have "concat sc = concat (take i sc @ sc ! i # drop (Suc i) sc)"
    using assms by (simp add: id_take_nth_drop [symmetric])
  then show "concat sc = concat (take i sc) @ sc ! i @ concat (drop (Suc i) sc)" by simp
qed

lemma valid_step:
  assumes v: "validPartition rest sc" and f: "f \<notin> set rest"
    and p: "p = [f] # sc \<or> p \<in> set (combineFirst f sc)"
  shows "validPartition (f # rest) p"
  using p
proof
  assume "p = [f] # sc"
  then show ?thesis using v f by (auto simp: validPartition_def)
next
  assume "p \<in> set (combineFirst f sc)"
  then obtain i where i: "i < length sc" and pi: "p = sc[i := f # sc ! i]"
    by (auto simp: combineFirst_update)
  note c = concat_update [OF i]
  have d: "distinct (concat sc)" and s: "set (concat sc) = set rest"
    and n: "[] \<notin> set sc"
    using v by (simp_all add: validPartition_def)
  have "distinct (concat p)"
    using d f s unfolding pi c(1) by (subst (asm) c(2), subst (asm) (2) c(2)) auto
  moreover have "set (concat p) = set (f # rest)"
    using s unfolding pi c(1) by (subst (asm) c(2)) auto
  moreover have "[] \<notin> set p"
    using n i unfolding pi by (auto simp: set_update_distinct dest: set_update_subset_insert [THEN subsetD])
  moreover have "p \<noteq> []" using i pi by auto
  ultimately show ?thesis by (simp add: validPartition_def)
qed


lemma blocks_nth: "blocks p = (\<lambda>j. set (p ! j)) ` {..<length p}"
proof -
  have "set p = (\<lambda>j. p ! j) ` {..<length p}"
    by (auto simp: in_set_conv_nth)
  then have "set ` set p = (\<lambda>j. set (p ! j)) ` {..<length p}"
    by (simp add: image_image)
  then show ?thesis by (simp add: blocks_def)
qed

lemma valid_fresh:
  assumes "validPartition rest sc" and "f \<notin> set rest" and "j < length sc"
  shows "f \<notin> set (sc ! j)" and "set (sc ! j) \<noteq> {}" and "set (sc ! j) - {f} = set (sc ! j)"
  using valid_groups [OF assms(1,3)] assms(2) by auto

lemma valid_disjoint:
  assumes "validPartition rest sc" and "i < length sc" and "j < length sc" and "i \<noteq> j"
  shows "set (sc ! i) \<inter> set (sc ! j) = {}"
proof -
  have d: "distinct (concat sc)" and n: "[] \<notin> set sc"
    using assms(1) by (simp_all add: validPartition_def)
  have "removeAll [] sc = sc" using n by (simp add: removeAll_id)
  then have "distinct sc" using d by (simp add: distinct_concat_iff)
  then have "sc ! i \<noteq> sc ! j" using assms(2-4) by (simp add: nth_eq_iff_index_eq)
  then show ?thesis using d assms(2,3) by (simp add: distinct_concat_iff)
qed

lemma restrict_step:
  assumes v: "validPartition rest sc" and f: "f \<notin> set rest"
    and p: "p = [f] # sc \<or> p \<in> set (combineFirst f sc)"
  shows "restrictBlocks f (blocks p) = blocks sc"
  using p
proof
  assume p: "p = [f] # sc"
  have "(\<lambda>b. b - {f}) ` blocks sc = blocks sc"
    unfolding blocks_nth using valid_fresh(3) [OF v f] by (auto simp: image_iff)
  moreover have "{} \<notin> blocks sc"
    unfolding blocks_nth using valid_fresh(2) [OF v f] by auto
  ultimately show ?thesis
    by (simp add: p restrictBlocks_def blocks_def)
next
  assume "p \<in> set (combineFirst f sc)"
  then obtain i where i: "i < length sc" and pi: "p = sc[i := f # sc ! i]"
    by (auto simp: combineFirst_update)
  have "set (p ! j) - {f} = set (sc ! j)" if "j < length sc" for j
    using valid_fresh(3) [OF v f that] valid_fresh(1) [OF v f that] i
    by (cases "j = i") (simp_all add: pi)
  then have "(\<lambda>b. b - {f}) ` blocks p = blocks sc"
    unfolding blocks_nth by (auto simp: pi image_iff)
  moreover have "{} \<notin> blocks sc"
    unfolding blocks_nth using valid_fresh(2) [OF v f] by auto
  ultimately show ?thesis by (simp add: restrictBlocks_def)
qed

lemma single_not_in_combined:
  assumes v: "validPartition rest sc" and f: "f \<notin> set rest"
    and p: "p \<in> set (combineFirst f sc)"
  shows "{f} \<notin> blocks p"
proof
  assume a: "{f} \<in> blocks p"
  obtain i where i: "i < length sc" and pi: "p = sc[i := f # sc ! i]"
    using p by (auto simp: combineFirst_update)
  from a obtain j where j: "j < length sc" "{f} = set (p ! j)"
    unfolding blocks_nth by (auto simp: pi)
  show False
  proof (cases "j = i")
    case True
    then have "{f} = insert f (set (sc ! i))" using j i by (simp add: pi)
    then have "set (sc ! i) \<subseteq> {f}" by auto
    then show False using valid_fresh(1,2) [OF v f i] by (auto simp: subset_singleton_iff)
  next
    case False
    then have "{f} = set (sc ! j)" using j i by (simp add: pi)
    then show False using valid_fresh(1) [OF v f j(1)] by auto
  qed
qed

lemma combined_index_unique:
  assumes v: "validPartition rest sc" and f: "f \<notin> set rest"
    and i: "i < length sc" and j: "j < length sc"
    and e: "blocks (sc[i := f # sc ! i]) = blocks (sc[j := f # sc ! j])"
  shows "i = j"
proof (rule ccontr)
  assume ne: "i \<noteq> j"
  have "insert f (set (sc ! i)) \<in> blocks (sc[i := f # sc ! i])"
    unfolding blocks_nth using i by (auto simp: image_iff intro!: bexI [of _ i])
  then have "insert f (set (sc ! i)) \<in> blocks (sc[j := f # sc ! j])" using e by simp
  then obtain k where k: "k < length sc" "insert f (set (sc ! i)) = set ((sc[j := f # sc ! j]) ! k)"
    unfolding blocks_nth by auto
  show False
  proof (cases "k = j")
    case True
    then have "insert f (set (sc ! i)) = insert f (set (sc ! j))" using k j by simp
    then have "set (sc ! i) = set (sc ! j)"
      using valid_fresh(1) [OF v f i] valid_fresh(1) [OF v f j] by auto
    then show False
      using valid_disjoint [OF v i j ne] valid_fresh(2) [OF v f i] by auto
  next
    case False
    then have "insert f (set (sc ! i)) = set (sc ! k)" using k by simp
    then show False using valid_fresh(1) [OF v f k(1)] by auto
  qed
qed


lemma distinct_blocks_one:
  assumes v: "validPartition rest sc" and f: "f \<notin> set rest"
  shows "distinct (map blocks (([f] # sc) # combineFirst f sc))"
proof -
  have "blocks ([f] # sc) \<noteq> blocks p" if "p \<in> set (combineFirst f sc)" for p
  proof
    assume "blocks ([f] # sc) = blocks p"
    moreover have "{f} \<in> blocks ([f] # sc)" by (simp add: blocks_def)
    ultimately show False using single_not_in_combined [OF v f that] by simp
  qed
  then have a: "blocks ([f] # sc) \<notin> blocks ` set (combineFirst f sc)" by auto
  have "inj_on (\<lambda>i. blocks (sc[i := f # sc ! i])) (set [0..<length sc])"
    by (rule inj_onI) (use combined_index_unique [OF v f] in auto)
  then have "distinct (map (\<lambda>i. blocks (sc[i := f # sc ! i])) [0..<length sc])"
    by (simp add: distinct_map)
  then have "distinct (map blocks (combineFirst f sc))"
    by (simp add: combineFirst_update comp_def)
  then show ?thesis using a by simp
qed

lemma distinct_blocks_grouped:
  assumes "\<forall>sc \<in> set sub. validPartition rest sc" and "distinct (map blocks sub)"
    and f: "f \<notin> set rest"
  shows "distinct (map blocks (grouped f sub))"
  using assms(1,2)
proof (induction sub)
  case Nil
  then show ?case by (simp add: grouped_def)
next
  case (Cons sc sub)
  let ?X = "([f] # sc) # combineFirst f sc"
  have v: "validPartition rest sc" using Cons.prems(1) by simp
  have g: "grouped f (sc # sub) = ?X @ grouped f sub" by (simp add: grouped_def)
  have "blocks p \<noteq> blocks q" if p: "p \<in> set ?X" and q: "q \<in> set (grouped f sub)" for p q
  proof
    assume e: "blocks p = blocks q"
    from q obtain sc' where sc': "sc' \<in> set sub" "q = [f] # sc' \<or> q \<in> set (combineFirst f sc')"
      by (auto simp: set_grouped)
    have v': "validPartition rest sc'" using Cons.prems(1) sc'(1) by simp
    have "p = [f] # sc \<or> p \<in> set (combineFirst f sc)" using p by simp
    from restrict_step [OF v f this] restrict_step [OF v' f sc'(2)] e
    have "blocks sc = blocks sc'" by simp
    then show False using Cons.prems(2) sc'(1) by auto
  qed
  then have "blocks ` set ?X \<inter> blocks ` set (grouped f sub) = {}" by blast
  moreover have "distinct (map blocks (grouped f sub))"
    using Cons by simp
  moreover note distinct_blocks_one [OF v f]
  ultimately have "distinct (map blocks ?X @ map blocks (grouped f sub))"
    by (simp only: distinct_append set_map)
  then show ?case by (simp only: g map_append)
qed


lemma set_sortDefault: "set (sortDefault ids) = set ids"
  by (simp add: sortDefault_def)

lemma key_blocks:
  assumes p: "validPartition ts p" and q: "validPartition ts q"
    and inj: "inj_on taskId (set ts)"
    and e: "combinationKey p = combinationKey q"
  shows "blocks p = blocks q"
proof -
  have "map set (combinationKey p) = map set (combinationKey q)" using e by simp
  then have m: "map (\<lambda>g. taskId ` set g) p = map (\<lambda>g. taskId ` set g) q"
    by (simp add: combinationKey_def comp_def set_sortDefault)
  then have len: "length p = length q" by (rule map_eq_imp_length_eq)
  have "map set p = map set q"
  proof (rule nth_equalityI)
    show "length (map set p) = length (map set q)" using len by simp
    fix i assume "i < length (map set p)"
    then have i: "i < length p" "i < length q" using len by simp_all
    have "taskId ` set (p ! i) = taskId ` set (q ! i)"
      using arg_cong [OF m, of "\<lambda>xs. xs ! i"] i by simp
    then have "set (p ! i) = set (q ! i)"
      using inj valid_groups(2) [OF p i(1)] valid_groups(2) [OF q i(2)]
      by (simp add: inj_on_image_eq_iff)
    then show "map set p ! i = map set q ! i" using i by simp
  qed
  then show ?thesis by (simp add: blocks_def)
qed

lemma stirling2_step:
  "length (filter (\<lambda>sc. Suc (length sc) = k) sub) + k * length (filter (\<lambda>sc. length sc = k) sub)
     = stirling2 (Suc n) k"
  if "\<forall>k. length (filter (\<lambda>sc. length sc = k) sub) = stirling2 n k"
proof (cases k)
  case 0
  then show ?thesis by simp
next
  case (Suc k')
  then show ?thesis using that by simp
qed

lemma generate_invariant:
  assumes "tasks \<noteq> []" and "distinct (map taskId tasks)"
  shows "(\<forall>p \<in> set (generateLoanTaskCombinations tasks). validPartition tasks p) \<and>
         distinct (map blocks (generateLoanTaskCombinations tasks)) \<and>
         [tasks] \<in> set (generateLoanTaskCombinations tasks) \<and>
         (\<forall>k. length (filter (\<lambda>p. length p = k) (generateLoanTaskCombinations tasks))
               = stirling2 (length tasks) k)"
  using assms
proof (induction tasks rule: generateLoanTaskCombinations.induct)
  case 1
  then show ?case by simp
next
  case (2 t)
  have "stirling2 (Suc 0) k = (if k = Suc 0 then 1 else 0)" for k
    by (cases k; cases "k - 1") simp_all
  then show ?case by (simp add: validPartition_def)
next
  case (3 f t ts)
  let ?rest = "t # ts"
  let ?sub = "generateLoanTaskCombinations ?rest"
  let ?R = "map (\<lambda>sc. [f] # sc) ?sub @ concat (map (combineFirst f) ?sub)"
  let ?d = "[[f], ?rest]"
  have dr: "distinct (map taskId ?rest)" and fr: "f \<notin> set ?rest"
    using "3.prems"(2) by auto
  have inj: "inj_on taskId (set (f # ?rest))"
    using "3.prems"(2) by (simp only: distinct_map)
  from "3.IH" [OF refl _ dr]
  have ih: "\<forall>p \<in> set ?sub. validPartition ?rest p" "distinct (map blocks ?sub)"
    "[?rest] \<in> set ?sub"
    "\<forall>k. length (filter (\<lambda>p. length p = k) ?sub) = stirling2 (length ?rest) k"
    by simp_all
  have gen: "generateLoanTaskCombinations (f # t # ts) = removeDuplicates (?d # ?R)"
    by (simp add: Let_def)
  have mR: "mset ?R = mset (grouped f ?sub)" by (rule mset_raw_grouped)
  then have sR: "set ?R = set (grouped f ?sub)" by (rule mset_eq_setD)
  have vR: "validPartition (f # ?rest) p" if "p \<in> set ?R" for p
  proof -
    from that obtain sc where "sc \<in> set ?sub" "p = [f] # sc \<or> p \<in> set (combineFirst f sc)"
      unfolding sR set_grouped by blast
    then show ?thesis using valid_step [OF _ fr] ih(1) by blast
  qed
  have "mset (map blocks ?R) = mset (map blocks (grouped f ?sub))"
    using mR by (metis mset_map)
  then have dB: "distinct (map blocks ?R)"
    using distinct_blocks_grouped [OF ih(1,2) fr] by (metis mset_eq_imp_distinct_iff)
  then have dRl: "distinct ?R" and iB: "inj_on blocks (set ?R)"
    by (simp_all only: distinct_map)
  have "inj_on combinationKey (set ?R)"
  proof (rule inj_onI)
    fix x y assume x: "x \<in> set ?R" and y: "y \<in> set ?R" and "combinationKey x = combinationKey y"
    then have "blocks x = blocks y" using key_blocks [OF vR vR inj] by blast
    then show "x = y" using inj_onD [OF iB _ x y] by blast
  qed
  then have dK: "distinct (map combinationKey ?R)" using dRl by (simp only: distinct_map)
  have dIn: "?d \<in> set ?R" using ih(3) by auto
  have mG: "mset (generateLoanTaskCombinations (f # t # ts)) = mset ?R"
    unfolding gen by (rule mset_removeDuplicates [OF dK dIn])
  then have sG: "set (generateLoanTaskCombinations (f # t # ts)) = set ?R"
    by (rule mset_eq_setD)
  have 1: "\<forall>p \<in> set (generateLoanTaskCombinations (f # t # ts)). validPartition (f # t # ts) p"
    using vR unfolding sG by blast
  have "mset (map blocks (generateLoanTaskCombinations (f # t # ts))) = mset (map blocks ?R)"
    using mG by (metis mset_map)
  then have 2: "distinct (map blocks (generateLoanTaskCombinations (f # t # ts)))"
    using dB by (metis mset_eq_imp_distinct_iff)
  have "[f # ?rest] \<in> set (combineFirst f [?rest])" by simp
  then have "[f # ?rest] \<in> set (grouped f ?sub)"
    unfolding set_grouped using ih(3) by blast
  then have 3: "[f # t # ts] \<in> set (generateLoanTaskCombinations (f # t # ts))"
    unfolding sG sR .
  have 4: "length (filter (\<lambda>p. length p = k) (generateLoanTaskCombinations (f # t # ts)))
      = stirling2 (length (f # t # ts)) k" for k
  proof -
    have "mset (filter (\<lambda>p. length p = k) (generateLoanTaskCombinations (f # t # ts)))
        = mset (filter (\<lambda>p. length p = k) (grouped f ?sub))"
      using mG mR by (simp only: mset_filter)
    then have "length (filter (\<lambda>p. length p = k) (generateLoanTaskCombinations (f # t # ts)))
        = length (filter (\<lambda>p. length p = k) (grouped f ?sub))"
      by (rule mset_eq_length)
    also have "\<dots> = stirling2 (Suc (length ?rest)) k"
      unfolding count_grouped using ih(4) by (rule stirling2_step)
    finally show ?thesis by simp
  qed
  show ?case using 1 2 3 4 by blast
qed


lemma set_filterUnique: "set (filterUnique seen xs) \<subseteq> set xs"
  by (induction xs arbitrary: seen) (auto simp: Let_def)

lemma generate_groups: "p \<in> set (generateLoanTaskCombinations tasks) \<Longrightarrow> p \<noteq> []"
proof (induction tasks arbitrary: p rule: generateLoanTaskCombinations.induct)
  case 1
  then show ?case by simp
next
  case (2 t)
  then show ?case by simp
next
  case (3 f t ts)
  let ?sub = "generateLoanTaskCombinations (t # ts)"
  have "generateLoanTaskCombinations (f # t # ts)
      = filterUnique [] ([[f], t # ts] # map (\<lambda>sc. [f] # sc) ?sub @ concat (map (combineFirst f) ?sub))"
    by (simp only: generateLoanTaskCombinations.simps Let_def removeDuplicates_def)
  with "3.prems" have "p \<in> set (filterUnique []
      ([[f], t # ts] # map (\<lambda>sc. [f] # sc) ?sub @ concat (map (combineFirst f) ?sub)))"
    by (simp only:)
  from subsetD [OF set_filterUnique this]
  have "p \<in> set ([[f], t # ts] # map (\<lambda>sc. [f] # sc) ?sub @ concat (map (combineFirst f) ?sub))" .
  then consider "p = [[f], t # ts]" | sc where "sc \<in> set ?sub" "p = [f] # sc"
    | sc where "sc \<in> set ?sub" "p \<in> set (combineFirst f sc)"
    by auto
  then show ?case
  proof cases
    case 3
    then have "length p = length sc" "sc \<noteq> []"
      using "3.IH" [OF refl] combineFirst_lengths by blast+
    then show ?thesis by auto
  qed simp_all
qed

lemma Bell_values: "map Bell [0, 1, 2, 3, 4, 5] = [1, 1, 2, 5, 15, 52]"
  by (simp add: Bell_def numeral_eq_Suc)

lemma length_by_classes:
  assumes "\<forall>x \<in> set xs. f x < m"
  shows "length xs = (\<Sum>k\<leftarrow>[0..<m]. length (filter (\<lambda>x. f x = k) xs))"
  using assms
proof (induction xs)
  case Nil
  then show ?case by simp
next
  case (Cons x xs)
  have "(\<Sum>k\<leftarrow>[0..<m]. if f x = k then 1 else 0) = (\<Sum>k\<in>{0..<m}. if f x = k then 1 else (0::nat))"
    by (simp add: interv_sum_list_conv_sum_set_nat)
  also have "\<dots> = 1" using Cons.prems by simp
  finally have one: "(\<Sum>k\<leftarrow>[0..<m]. if f x = k then 1 else 0) = (1::nat)" .
  have "(\<Sum>k\<leftarrow>[0..<m]. length (filter (\<lambda>y. f y = k) (x # xs)))
      = (\<Sum>k\<leftarrow>[0..<m]. (if f x = k then 1 else 0) + length (filter (\<lambda>y. f y = k) xs))"
    by (intro arg_cong [where f = sum_list] map_cong refl) simp
  also have "\<dots> = (\<Sum>k\<leftarrow>[0..<m]. if f x = k then 1 else 0)
      + (\<Sum>k\<leftarrow>[0..<m]. length (filter (\<lambda>y. f y = k) xs))"
    by (simp add: sum_list_addf)
  finally show ?case using Cons one by simp
qed

lemma length_le_concat: "[] \<notin> set p \<Longrightarrow> length p \<le> length (concat p)"
proof (induction p)
  case (Cons g p)
  then have "1 \<le> length g" by (cases g) auto
  then show ?case using Cons by simp
qed simp

lemma valid_length:
  assumes "validPartition ts p" and "distinct ts"
  shows "length p \<le> length ts"
proof -
  have "length (concat p) = length ts"
    using assms by (metis validPartition_def distinct_card)
  then show ?thesis using length_le_concat [of p] assms(1) by (simp add: validPartition_def)
qed

text \<open>
  C5 (amended): for every list of n >= 1 tasks with pairwise distinct ids, the generator
  returns exactly Bell(n) partitions, pairwise distinct as sets of groups, each a true set
  partition of the input: no group is empty, and every task of the input stands exactly
  once in the groups.
\<close>

theorem C5_bell_many_set_partitions:
  assumes "tasks \<noteq> []" and "distinct (map taskId tasks)"
  shows "length (generateLoanTaskCombinations tasks) = Bell (length tasks) \<and>
         distinct (map blocks (generateLoanTaskCombinations tasks)) \<and>
         (\<forall>p \<in> set (generateLoanTaskCombinations tasks).
            [] \<notin> set p \<and> distinct (concat p) \<and> set (concat p) = set tasks)"
proof -
  note inv = generate_invariant [OF assms]
  have d: "distinct tasks" using assms(2) by (simp only: distinct_map)
  have "\<forall>p \<in> set (generateLoanTaskCombinations tasks). length p < Suc (length tasks)"
    using inv valid_length [OF _ d] by (auto simp: less_Suc_eq_le)
  from length_by_classes [OF this]
  have "length (generateLoanTaskCombinations tasks) = Bell (length tasks)"
    using inv by (simp add: Bell_def)
  moreover have "\<forall>p \<in> set (generateLoanTaskCombinations tasks).
            [] \<notin> set p \<and> distinct (concat p) \<and> set (concat p) = set tasks"
    using inv by (simp add: validPartition_def)
  ultimately show ?thesis using inv by blast
qed

text \<open>
  C5 (as stated, refuted): on the empty list the generator returns no partition, and
  Bell(0) is 1.
\<close>

theorem C5_counterexample:
  "generateLoanTaskCombinations [] = [] \<and> Bell 0 = 1 \<and>
   length (generateLoanTaskCombinations []) \<noteq> Bell 0"
  by (simp add: Bell_def)

text \<open>C5 (amended) at three orders: Bell(3) = 5 partitions.\<close>

theorem C5_witness:
  "[lenderOrder 1 ''L1'' 100 500 1000, lenderOrder 2 ''L2'' 200 450 1000,
    borrowerOrder 3 ''B3'' 150 600 1000] \<noteq> [] \<and>
   distinct (map taskId [lenderOrder 1 ''L1'' 100 500 1000, lenderOrder 2 ''L2'' 200 450 1000,
    borrowerOrder 3 ''B3'' 150 600 1000]) \<and>
   length (generateLoanTaskCombinations
     [lenderOrder 1 ''L1'' 100 500 1000, lenderOrder 2 ''L2'' 200 450 1000,
      borrowerOrder 3 ''B3'' 150 600 1000]) = 5"
  using C5_bell_many_set_partitions
    [of "[lenderOrder 1 ''L1'' 100 500 1000, lenderOrder 2 ''L2'' 200 450 1000,
          borrowerOrder 3 ''B3'' 150 600 1000]"]
  by (simp add: example_defs Bell_def numeral_3_eq_3)

end
